theory Spec2Isabelle
  imports Main "HOL-Library.Signed_Division"
begin

section \<open>The modulo benchmark of \<open>code_scheduling/fast_mod.cpp\<close>\<close>

text \<open>
  The file holds five benchmark functions (\<open>baseMod\<close>, \<open>unrollMod\<close>, \<open>fastMod\<close>,
  \<open>fastModHint\<close>, \<open>fastModHintUnroll\<close>) and the argument generator \<open>custom_args\<close>.
  Each benchmark function reads \<open>N\<close> and \<open>ceil\<close>, resizes two vectors to \<open>N\<close>,
  fills \<open>input\<close> with draws from \<open>[0, 255]\<close> and then repeats one pass of its
  \<open>for\<close> loop as long as the benchmark library asks for it.

  C++ \<open>int\<close> values are modelled as \<open>int\<close>. The only arithmetic on vector elements is
  \<open>%\<close>, which cannot wrap; its two undefined cases (a zero divisor, and
  \<open>INT_MIN % -1\<close>) are error results. The loop counter stays below \<open>N + 4\<close>, and an
  index that reaches \<open>N\<close> is an out-of-range access before the counter could
  overflow, so the counter is an \<open>int\<close> as well.
\<close>

subsection \<open>Errors, accesses and the locals of a benchmark function\<close>

datatype error =
    LengthError      \<comment> \<open>\<open>std::vector::resize\<close> with a negative \<open>int\<close> converted to \<open>size_t\<close>\<close>
  | DivByZero        \<comment> \<open>\<open>x % 0\<close>: undefined behaviour\<close>
  | SignedOverflow   \<comment> \<open>\<open>INT_MIN % -1\<close>: undefined behaviour\<close>
  | OutOfBounds      \<comment> \<open>\<open>v[i]\<close> with \<open>i \<ge> v.size()\<close>: undefined behaviour\<close>

text \<open>
  \<open>Read j\<close> is an evaluation of \<open>input[j]\<close>, \<open>Write j\<close> an assignment to \<open>output[j]\<close>.
  The \<open>trace\<close> field records them in program order; nothing in the program reads it.
\<close>

datatype access = Read int | Write int

record state =
  N :: int
  ceil :: int
  input :: "int list"
  "output" :: "int list"
  trace :: "access list"

subsection \<open>Expressions\<close>

definition INT_MIN :: int where
  "INT_MIN = - (2 ^ 31)"

text \<open>\<open>a % b\<close> on \<open>int\<close>: the remainder of the division that truncates towards zero.\<close>

definition c_rem :: "int \<Rightarrow> int \<Rightarrow> error + int" where
  "c_rem a b =
     (if b = 0 then Inl DivByZero
      else if a = INT_MIN \<and> b = - 1 then Inl SignedOverflow
      else Inr (a smod b))"

text \<open>\<open>input[j]\<close>: \<open>operator[]\<close> does not check its index.\<close>

definition read_input :: "int \<Rightarrow> state \<Rightarrow> error + (int \<times> state)" where
  "read_input j s =
     (if 0 \<le> j \<and> j < int (length (input s))
      then Inr (input s ! nat j, s\<lparr>trace := trace s @ [Read j]\<rparr>)
      else Inl OutOfBounds)"

text \<open>\<open>output[j] = v\<close>.\<close>

definition write_output :: "int \<Rightarrow> int \<Rightarrow> state \<Rightarrow> error + state" where
  "write_output j v s =
     (if 0 \<le> j \<and> j < int (length (output s))
      then Inr (s\<lparr>output := (output s)[nat j := v], trace := trace s @ [Write j]\<rparr>)
      else Inl OutOfBounds)"

text \<open>\<open>__builtin_expect(e, c)\<close> has the value of \<open>e\<close>; \<open>c\<close> is the expected value.\<close>

definition builtin_expect :: "int \<Rightarrow> int \<Rightarrow> int" where
  "builtin_expect e c = e"

subsection \<open>The three assignment statements\<close>

text \<open>
  \<open>output[j] = input[j] % ceil;\<close> The right operand of an assignment is evaluated
  before the left one.
\<close>

definition mod_stmt :: "int \<Rightarrow> state \<Rightarrow> error + state" where
  "mod_stmt j s =
     (case read_input j s of
        Inl e \<Rightarrow> Inl e
      | Inr (x, s1) \<Rightarrow>
          (case c_rem x (ceil s1) of
             Inl e \<Rightarrow> Inl e
           | Inr r \<Rightarrow> write_output j r s1))"

text \<open>\<open>output[j] = (input[j] >= ceil) ? input[j] % ceil : input[j];\<close>\<close>

definition fast_stmt :: "int \<Rightarrow> state \<Rightarrow> error + state" where
  "fast_stmt j s =
     (case read_input j s of
        Inl e \<Rightarrow> Inl e
      | Inr (x, s1) \<Rightarrow>
          if x \<ge> ceil s1
          then (case read_input j s1 of
                  Inl e \<Rightarrow> Inl e
                | Inr (y, s2) \<Rightarrow>
                    (case c_rem y (ceil s2) of
                       Inl e \<Rightarrow> Inl e
                     | Inr r \<Rightarrow> write_output j r s2))
          else (case read_input j s1 of
                  Inl e \<Rightarrow> Inl e
                | Inr (y, s2) \<Rightarrow> write_output j y s2))"

text \<open>
  \<open>output[j] = __builtin_expect(input[j] >= ceil, 0) ? input[j] % ceil : input[j];\<close>
  The comparison is converted to \<open>long\<close> (1 or 0), and the result of the builtin is
  true when it is not 0.
\<close>

definition hint_stmt :: "int \<Rightarrow> state \<Rightarrow> error + state" where
  "hint_stmt j s =
     (case read_input j s of
        Inl e \<Rightarrow> Inl e
      | Inr (x, s1) \<Rightarrow>
          if builtin_expect (if x \<ge> ceil s1 then 1 else 0) 0 \<noteq> 0
          then (case read_input j s1 of
                  Inl e \<Rightarrow> Inl e
                | Inr (y, s2) \<Rightarrow>
                    (case c_rem y (ceil s2) of
                       Inl e \<Rightarrow> Inl e
                     | Inr r \<Rightarrow> write_output j r s2))
          else (case read_input j s1 of
                  Inl e \<Rightarrow> Inl e
                | Inr (y, s2) \<Rightarrow> write_output j y s2))"

text \<open>Statements in sequence: the first error ends the run.\<close>

definition seq :: "(state \<Rightarrow> error + state) \<Rightarrow> (state \<Rightarrow> error + state) \<Rightarrow> state \<Rightarrow> error + state" where
  "seq f g s = (case f s of Inl e \<Rightarrow> Inl e | Inr s1 \<Rightarrow> g s1)"

text \<open>The body of each \<open>for\<close> statement that is unrolled by 4.\<close>

definition unrollMod_body :: "int \<Rightarrow> state \<Rightarrow> error + state" where
  "unrollMod_body i =
     seq (mod_stmt i) (seq (mod_stmt (i + 1)) (seq (mod_stmt (i + 2)) (mod_stmt (i + 3))))"

definition fastModHintUnroll_body :: "int \<Rightarrow> state \<Rightarrow> error + state" where
  "fastModHintUnroll_body i =
     seq (hint_stmt i) (seq (hint_stmt (i + 1)) (seq (hint_stmt (i + 2)) (hint_stmt (i + 3))))"

subsection \<open>What a statement leaves alone\<close>

lemma read_input_frame:
  "read_input j s = Inr (x, s1) \<Longrightarrow>
     N s1 = N s \<and> ceil s1 = ceil s \<and> input s1 = input s \<and> output s1 = output s"
  by (auto simp: read_input_def split: if_splits)

lemma write_output_frame:
  "write_output j v s = Inr s1 \<Longrightarrow>
     N s1 = N s \<and> ceil s1 = ceil s \<and> input s1 = input s \<and> length (output s1) = length (output s)"
  by (auto simp: write_output_def split: if_splits)

lemma mod_stmt_frame:
  "mod_stmt j s = Inr s' \<Longrightarrow>
     N s' = N s \<and> ceil s' = ceil s \<and> input s' = input s \<and> length (output s') = length (output s)"
  unfolding mod_stmt_def
  by (auto split: sum.splits prod.splits dest!: read_input_frame write_output_frame)

lemma fast_stmt_frame:
  "fast_stmt j s = Inr s' \<Longrightarrow>
     N s' = N s \<and> ceil s' = ceil s \<and> input s' = input s \<and> length (output s') = length (output s)"
  unfolding fast_stmt_def
  by (auto split: sum.splits prod.splits if_splits dest!: read_input_frame write_output_frame)

lemma hint_stmt_frame:
  "hint_stmt j s = Inr s' \<Longrightarrow>
     N s' = N s \<and> ceil s' = ceil s \<and> input s' = input s \<and> length (output s') = length (output s)"
  unfolding hint_stmt_def
  by (auto split: sum.splits prod.splits if_splits dest!: read_input_frame write_output_frame)

lemma seq_Inr:
  "seq f g s = Inr s' \<longleftrightarrow> (\<exists>s1. f s = Inr s1 \<and> g s1 = Inr s')"
  by (auto simp: seq_def split: sum.splits)

lemma unrollMod_body_frame:
  "unrollMod_body i s = Inr s' \<Longrightarrow>
     N s' = N s \<and> ceil s' = ceil s \<and> input s' = input s \<and> length (output s') = length (output s)"
  unfolding unrollMod_body_def seq_Inr
  by (auto dest!: mod_stmt_frame)

lemma fastModHintUnroll_body_frame:
  "fastModHintUnroll_body i s = Inr s' \<Longrightarrow>
     N s' = N s \<and> ceil s' = ceil s \<and> input s' = input s \<and> length (output s') = length (output s)"
  unfolding fastModHintUnroll_body_def seq_Inr
  by (auto dest!: hint_stmt_frame)

subsection \<open>The \<open>for\<close> statement of each kernel\<close>

text \<open>\<open>for (int i = 0; i < N; i++) output[i] = input[i] % ceil;\<close> from counter \<open>i\<close>.\<close>

function baseMod_loop :: "int \<Rightarrow> state \<Rightarrow> error + state" where
  "baseMod_loop i s =
     (if i < N s
      then (case mod_stmt i s of Inl e \<Rightarrow> Inl e | Inr s' \<Rightarrow> baseMod_loop (i + 1) s')
      else Inr s)"
  by pat_completeness auto
termination
  by (relation "measure (\<lambda>(i, s). nat (N s - i))") (auto dest!: mod_stmt_frame)

function unrollMod_loop :: "int \<Rightarrow> state \<Rightarrow> error + state" where
  "unrollMod_loop i s =
     (if i < N s
      then (case unrollMod_body i s of Inl e \<Rightarrow> Inl e | Inr s' \<Rightarrow> unrollMod_loop (i + 4) s')
      else Inr s)"
  by pat_completeness auto
termination
  by (relation "measure (\<lambda>(i, s). nat (N s - i))") (auto dest!: unrollMod_body_frame)

function fastMod_loop :: "int \<Rightarrow> state \<Rightarrow> error + state" where
  "fastMod_loop i s =
     (if i < N s
      then (case fast_stmt i s of Inl e \<Rightarrow> Inl e | Inr s' \<Rightarrow> fastMod_loop (i + 1) s')
      else Inr s)"
  by pat_completeness auto
termination
  by (relation "measure (\<lambda>(i, s). nat (N s - i))") (auto dest!: fast_stmt_frame)

function fastModHint_loop :: "int \<Rightarrow> state \<Rightarrow> error + state" where
  "fastModHint_loop i s =
     (if i < N s
      then (case hint_stmt i s of Inl e \<Rightarrow> Inl e | Inr s' \<Rightarrow> fastModHint_loop (i + 1) s')
      else Inr s)"
  by pat_completeness auto
termination
  by (relation "measure (\<lambda>(i, s). nat (N s - i))") (auto dest!: hint_stmt_frame)

function fastModHintUnroll_loop :: "int \<Rightarrow> state \<Rightarrow> error + state" where
  "fastModHintUnroll_loop i s =
     (if i < N s
      then (case fastModHintUnroll_body i s of
              Inl e \<Rightarrow> Inl e
            | Inr s' \<Rightarrow> fastModHintUnroll_loop (i + 4) s')
      else Inr s)"
  by pat_completeness auto
termination
  by (relation "measure (\<lambda>(i, s). nat (N s - i))") (auto dest!: fastModHintUnroll_body_frame)

declare baseMod_loop.simps [simp del]
declare unrollMod_loop.simps [simp del]
declare fastMod_loop.simps [simp del]
declare fastModHint_loop.simps [simp del]
declare fastModHintUnroll_loop.simps [simp del]

text \<open>One pass of a kernel: the \<open>for\<close> loop from \<open>i = 0\<close>.\<close>

definition baseMod_pass :: "state \<Rightarrow> error + state" where
  "baseMod_pass s = baseMod_loop 0 s"

definition unrollMod_pass :: "state \<Rightarrow> error + state" where
  "unrollMod_pass s = unrollMod_loop 0 s"

definition fastMod_pass :: "state \<Rightarrow> error + state" where
  "fastMod_pass s = fastMod_loop 0 s"

definition fastModHint_pass :: "state \<Rightarrow> error + state" where
  "fastModHint_pass s = fastModHint_loop 0 s"

definition fastModHintUnroll_pass :: "state \<Rightarrow> error + state" where
  "fastModHintUnroll_pass s = fastModHintUnroll_loop 0 s"

subsection \<open>The benchmark functions\<close>

text \<open>
  The prologue shared by the five functions, for \<open>N = s.range(0)\<close> and
  \<open>ceil = s.range(1)\<close>: both vectors are resized to \<open>N\<close> (new elements are 0; a negative
  \<open>N\<close> converts to a size beyond \<open>max_size\<close>, and \<open>resize\<close> throws), then \<open>input\<close> is
  filled in order with the draws of \<open>dist\<close>, the \<open>k\<close>-th of which is \<open>dist k\<close>.
\<close>

definition prologue :: "int \<Rightarrow> int \<Rightarrow> (nat \<Rightarrow> int) \<Rightarrow> error + state" where
  "prologue n c dist =
     (if n < 0 then Inl LengthError
      else Inr \<lparr>N = n, ceil = c, input = map dist [0..<nat n],
                output = replicate (nat n) 0, trace = []\<rparr>)"

text \<open>
  \<open>while (s.KeepRunning()) pass\<close>, where the library answers true \<open>k\<close> times.
\<close>

fun keep_running :: "nat \<Rightarrow> (state \<Rightarrow> error + state) \<Rightarrow> state \<Rightarrow> error + state" where
  "keep_running 0 pass s = Inr s"
| "keep_running (Suc k) pass s =
     (case pass s of Inl e \<Rightarrow> Inl e | Inr s' \<Rightarrow> keep_running k pass s')"

definition baseMod :: "int \<Rightarrow> int \<Rightarrow> (nat \<Rightarrow> int) \<Rightarrow> nat \<Rightarrow> error + state" where
  "baseMod n c dist k =
     (case prologue n c dist of Inl e \<Rightarrow> Inl e | Inr s \<Rightarrow> keep_running k baseMod_pass s)"

definition unrollMod :: "int \<Rightarrow> int \<Rightarrow> (nat \<Rightarrow> int) \<Rightarrow> nat \<Rightarrow> error + state" where
  "unrollMod n c dist k =
     (case prologue n c dist of Inl e \<Rightarrow> Inl e | Inr s \<Rightarrow> keep_running k unrollMod_pass s)"

definition fastMod :: "int \<Rightarrow> int \<Rightarrow> (nat \<Rightarrow> int) \<Rightarrow> nat \<Rightarrow> error + state" where
  "fastMod n c dist k =
     (case prologue n c dist of Inl e \<Rightarrow> Inl e | Inr s \<Rightarrow> keep_running k fastMod_pass s)"

definition fastModHint :: "int \<Rightarrow> int \<Rightarrow> (nat \<Rightarrow> int) \<Rightarrow> nat \<Rightarrow> error + state" where
  "fastModHint n c dist k =
     (case prologue n c dist of Inl e \<Rightarrow> Inl e | Inr s \<Rightarrow> keep_running k fastModHint_pass s)"

definition fastModHintUnroll :: "int \<Rightarrow> int \<Rightarrow> (nat \<Rightarrow> int) \<Rightarrow> nat \<Rightarrow> error + state" where
  "fastModHintUnroll n c dist k =
     (case prologue n c dist of
        Inl e \<Rightarrow> Inl e
      | Inr s \<Rightarrow> keep_running k fastModHintUnroll_pass s)"

subsection \<open>The argument generator and the registrations\<close>

text \<open>
  Modelled from the spec: the benchmark library is not part of the repository. A
  registered benchmark is the list of its argument pairs, empty when \<open>BENCHMARK\<close> creates
  it; \<open>ArgPair(x, y)\<close> adds the pair \<open>(x, y)\<close>; \<open>Apply(f)\<close> calls \<open>f\<close> on the benchmark;
  and the library invokes the registered function once for each pair, which the function
  reads as \<open>range(0)\<close> and \<open>range(1)\<close> (section 6 of the specification: each variant is
  invoked with a pair \<open>(N, C)\<close> of the grid).
\<close>

type_synonym benchmark = "(int \<times> int) list"

definition ArgPair :: "int \<Rightarrow> int \<Rightarrow> benchmark \<Rightarrow> benchmark" where
  "ArgPair x y b = b @ [(x, y)]"

definition Apply :: "(benchmark \<Rightarrow> benchmark option) \<Rightarrow> benchmark \<Rightarrow> benchmark option" where
  "Apply f b = f b"

text \<open>
  \<open>for (int i = 1 << 4; i <= 1 << 10; i <<= 2) for (int j : {32, 128, 224}) b = b->ArgPair(i, j);\<close>
  from counter \<open>i\<close>. The loop does not end from a counter that is 0 or negative, so its
  result is an option.
\<close>

partial_function (option) custom_args_loop :: "int \<Rightarrow> benchmark \<Rightarrow> benchmark option" where
  "custom_args_loop i b =
     (if i \<le> push_bit 10 1
      then custom_args_loop (push_bit 2 i) (fold (\<lambda>j b. ArgPair i j b) [32, 128, 224] b)
      else Some b)"

declare custom_args_loop.simps [code]

definition custom_args :: "benchmark \<Rightarrow> benchmark option" where
  "custom_args b = custom_args_loop (push_bit 4 1) b"

text \<open>The five lines \<open>BENCHMARK(f)->Apply(custom_args);\<close> in the order of the file.\<close>

datatype variant = BaseMod | UnrollMod | FastMod | FastModHint | FastModHintUnroll

definition registered :: "(variant \<times> benchmark option) list" where
  "registered =
     [(BaseMod, Apply custom_args []),
      (UnrollMod, Apply custom_args []),
      (FastMod, Apply custom_args []),
      (FastModHint, Apply custom_args []),
      (FastModHintUnroll, Apply custom_args [])]"

text \<open>The invocations the library makes: one for each pair of each registered function.\<close>

definition invocations :: "(variant \<times> int \<times> int) list" where
  "invocations =
     concat (map (\<lambda>(v, a). case a of None \<Rightarrow> [] | Some ps \<Rightarrow> map (\<lambda>(n, c). (v, n, c)) ps)
       registered)"

subsection \<open>Notions the properties are stated with\<close>

text \<open>
  The vectors of a benchmark function have \<open>N\<close> elements each: both are resized to
  \<open>N\<close> before the loop, and nothing resizes them later.
\<close>

definition sized :: "state \<Rightarrow> bool" where
  "sized s \<longleftrightarrow> int (length (input s)) = N s \<and> int (length (output s)) = N s"

text \<open>
  \<open>%\<close> is defined on every element: the divisor is not 0, and \<open>INT_MIN % -1\<close> cannot
  occur because the divisor is positive or no element is negative.
\<close>

definition safe_div :: "state \<Rightarrow> bool" where
  "safe_div s \<longleftrightarrow> ceil s \<noteq> 0 \<and> (0 < ceil s \<or> (\<forall>x \<in> set (input s). 0 \<le> x))"

text \<open>The value the unguarded and the guarded statements store for an element \<open>x\<close>.\<close>

definition mod_val :: "int \<Rightarrow> int \<Rightarrow> int" where
  "mod_val c x = x smod c"

definition guard_val :: "int \<Rightarrow> int \<Rightarrow> int" where
  "guard_val c x = (if x \<ge> c then x smod c else x)"

text \<open>The accesses of the unguarded and of the guarded statements at index \<open>j\<close>.\<close>

definition mod_ev :: "int \<Rightarrow> access list" where
  "mod_ev j = [Read j, Write j]"

definition guard_ev :: "int \<Rightarrow> access list" where
  "guard_ev j = [Read j, Read j, Write j]"

text \<open>
  What a statement at index \<open>j\<close> does to the state when nothing fails: it stores the
  value \<open>g\<close> gives for \<open>input[j]\<close> and makes the accesses \<open>ev j\<close>.
\<close>

definition sweep_step ::
  "(int \<Rightarrow> int \<Rightarrow> int) \<Rightarrow> (int \<Rightarrow> access list) \<Rightarrow> int \<Rightarrow> state \<Rightarrow> state" where
  "sweep_step g ev j s =
     s\<lparr>output := (output s)[nat j := g (ceil s) (input s ! nat j)], trace := trace s @ ev j\<rparr>"

text \<open>The index an access touches.\<close>

fun index_of :: "access \<Rightarrow> int" where
  "index_of (Read j) = j"
| "index_of (Write j) = j"

text \<open>The output sequence a pass leaves behind, or the error that ended it.\<close>

definition pass_output :: "(state \<Rightarrow> error + state) \<Rightarrow> state \<Rightarrow> error + int list" where
  "pass_output f s = (case f s of Inl e \<Rightarrow> Inl e | Inr s' \<Rightarrow> Inr (output s'))"

text \<open>
  The contract in the words of the specification: the pass yields an output sequence
  of length \<open>N\<close> whose element \<open>i\<close> is \<open>input[i] mod C\<close>.
\<close>

definition computes_mod :: "(state \<Rightarrow> error + state) \<Rightarrow> state \<Rightarrow> bool" where
  "computes_mod f s \<longleftrightarrow>
     (case f s of
        Inl e \<Rightarrow> False
      | Inr s' \<Rightarrow>
          int (length (output s')) = N s \<and>
          (\<forall>i \<in> {0..<length (output s')}. output s' ! i = input s ! i mod ceil s))"

text \<open>
  A pass that returns with the contract's output, \<open>N\<close> and \<open>ceil\<close> as they were.
\<close>

definition returns_mod :: "(state \<Rightarrow> error + state) \<Rightarrow> state \<Rightarrow> bool" where
  "returns_mod f s \<longleftrightarrow>
     (\<exists>s'. f s = Inr s' \<and> N s' = N s \<and> ceil s' = ceil s \<and>
           output s' = map (\<lambda>x. x mod ceil s) (input s))"

text \<open>
  What the fast path promises at the indices below the ceiling, for the state \<open>s'\<close> a
  guarded pass returned and the state \<open>b\<close> the baseline pass returned on the same
  \<open>s\<close>: the element is stored as it is, and where it is not negative this is the
  remainder, which is also what the baseline stored.
\<close>

definition fast_path :: "state \<Rightarrow> state \<Rightarrow> state \<Rightarrow> bool" where
  "fast_path s s' b \<longleftrightarrow>
     (\<forall>i \<in> {0..<length (input s)}. input s ! i < ceil s \<longrightarrow>
        output s' ! i = input s ! i \<and>
        (0 \<le> input s ! i \<longrightarrow>
           input s ! i mod ceil s = input s ! i \<and> output b ! i = output s' ! i))"

text \<open>
  A state in which the kernel is applied to the output \<open>out\<close> of an earlier pass on
  \<open>s\<close>: the same \<open>N\<close> and ceiling, \<open>out\<close> as the input, and an output vector of \<open>N\<close>
  elements with any contents.
\<close>

definition reapplied :: "state \<Rightarrow> int list \<Rightarrow> state \<Rightarrow> bool" where
  "reapplied s out t \<longleftrightarrow> N t = N s \<and> ceil t = ceil s \<and> input t = out \<and> sized t"

subsection \<open>The effect of one statement, in closed form\<close>

lemma prologue_sized: "prologue n c dist = Inr s \<Longrightarrow> sized s \<and> N s = n \<and> ceil s = c"
  by (auto simp: prologue_def sized_def split: if_splits)

lemma prologue_in_range:
  "\<forall>k. 0 \<le> dist k \<and> dist k \<le> 255 \<Longrightarrow> prologue n c dist = Inr s \<Longrightarrow>
     \<forall>x \<in> set (input s). 0 \<le> x \<and> x \<le> 255"
  by (auto simp: prologue_def split: if_splits)

lemma c_rem_safe: "c \<noteq> 0 \<Longrightarrow> 0 < c \<or> 0 \<le> x \<Longrightarrow> c_rem x c = Inr (x smod c)"
  by (auto simp: c_rem_def INT_MIN_def)

lemma safe_div_nth:
  "sized s \<Longrightarrow> safe_div s \<Longrightarrow> 0 \<le> j \<Longrightarrow> j < N s \<Longrightarrow>
     c_rem (input s ! nat j) (ceil s) = Inr (input s ! nat j smod ceil s)"
proof -
  assume a: "sized s" "safe_div s" "0 \<le> j" "j < N s"
  then have "nat j < length (input s)" by (auto simp: sized_def nat_less_iff)
  then have "input s ! nat j \<in> set (input s)" by (rule nth_mem)
  with a(2) have "0 < ceil s \<or> 0 \<le> input s ! nat j" by (auto simp: safe_div_def)
  moreover from a(2) have "ceil s \<noteq> 0" by (simp add: safe_div_def)
  ultimately show ?thesis by (intro c_rem_safe)
qed

lemma mod_stmt_step:
  "sized s \<Longrightarrow> safe_div s \<Longrightarrow> 0 \<le> j \<Longrightarrow> j < N s \<Longrightarrow>
     mod_stmt j s = Inr (sweep_step mod_val mod_ev j s)"
  using safe_div_nth [of s j]
  by (simp add: sized_def mod_stmt_def read_input_def write_output_def
      sweep_step_def mod_val_def mod_ev_def)

lemma fast_stmt_step:
  "sized s \<Longrightarrow> safe_div s \<Longrightarrow> 0 \<le> j \<Longrightarrow> j < N s \<Longrightarrow>
     fast_stmt j s = Inr (sweep_step guard_val guard_ev j s)"
  using safe_div_nth [of s j]
  by (simp add: sized_def fast_stmt_def read_input_def write_output_def
      sweep_step_def guard_val_def guard_ev_def)

lemma hint_stmt_step:
  "sized s \<Longrightarrow> safe_div s \<Longrightarrow> 0 \<le> j \<Longrightarrow> j < N s \<Longrightarrow>
     hint_stmt j s = Inr (sweep_step guard_val guard_ev j s)"
  using safe_div_nth [of s j]
  by (simp add: sized_def hint_stmt_def builtin_expect_def read_input_def write_output_def
      sweep_step_def guard_val_def guard_ev_def)

lemma mod_stmt_oob: "sized s \<Longrightarrow> N s \<le> j \<Longrightarrow> mod_stmt j s = Inl OutOfBounds"
  by (simp add: sized_def mod_stmt_def read_input_def)

lemma hint_stmt_oob: "sized s \<Longrightarrow> N s \<le> j \<Longrightarrow> hint_stmt j s = Inl OutOfBounds"
  by (simp add: sized_def hint_stmt_def read_input_def)

lemma sweep_step_simps [simp]:
  "N (sweep_step g ev j s) = N s"
  "ceil (sweep_step g ev j s) = ceil s"
  "input (sweep_step g ev j s) = input s"
  "length (output (sweep_step g ev j s)) = length (output s)"
  "trace (sweep_step g ev j s) = trace s @ ev j"
  by (simp_all add: sweep_step_def)

lemma sized_sweep_step [simp]: "sized (sweep_step g ev j s) = sized s"
  by (simp add: sized_def)

lemma safe_div_sweep_step [simp]: "safe_div (sweep_step g ev j s) = safe_div s"
  by (simp add: safe_div_def)

lemma fold_sweep_frame [simp]:
  "N (fold (sweep_step g ev) js s) = N s"
  "ceil (fold (sweep_step g ev) js s) = ceil s"
  "input (fold (sweep_step g ev) js s) = input s"
  "length (output (fold (sweep_step g ev) js s)) = length (output s)"
  "sized (fold (sweep_step g ev) js s) = sized s"
  "safe_div (fold (sweep_step g ev) js s) = safe_div s"
  by (induction js arbitrary: s; simp)+

lemma upto_four:
  "i + 4 \<le> n \<Longrightarrow> [i..n - 1] = i # (i + 1) # (i + 2) # (i + 3) # [i + 4..n - 1]"
proof -
  assume a: "i + 4 \<le> n"
  have e: "i + 1 + 1 = i + 2" "i + 2 + 1 = i + 3" "i + 3 + 1 = i + 4" by simp_all
  have u0: "[i..n - 1] = i # [i + 1..n - 1]" using a by (intro upto_rec1) simp
  have u1: "[i + 1..n - 1] = (i + 1) # [i + 1 + 1..n - 1]" using a by (intro upto_rec1) simp
  have u2: "[i + 2..n - 1] = (i + 2) # [i + 2 + 1..n - 1]" using a by (intro upto_rec1) simp
  have u3: "[i + 3..n - 1] = (i + 3) # [i + 3 + 1..n - 1]" using a by (intro upto_rec1) simp
  show ?thesis by (simp only: u0 u1 u2 u3 e)
qed

subsection \<open>Each loop is a sweep over the indices \<open>i, \<dots>, N - 1\<close>\<close>

lemma baseMod_loop_sweep:
  "sized s \<Longrightarrow> safe_div s \<Longrightarrow> 0 \<le> i \<Longrightarrow>
     baseMod_loop i s = Inr (fold (sweep_step mod_val mod_ev) [i..N s - 1] s)"
proof (induction i s rule: baseMod_loop.induct)
  case (1 i s)
  show ?case
  proof (cases "i < N s")
    case True
    define s1 where "s1 = sweep_step mod_val mod_ev i s"
    have st: "mod_stmt i s = Inr s1"
      unfolding s1_def using "1.prems" True by (simp add: mod_stmt_step)
    have f: "sized s1" "safe_div s1" "0 \<le> i + 1" "N s1 = N s"
      using "1.prems" by (simp_all add: s1_def)
    have "baseMod_loop (i + 1) s1 = Inr (fold (sweep_step mod_val mod_ev) [i + 1..N s1 - 1] s1)"
      using f(1-3) by (rule "1.IH" [OF True st])
    moreover have "[i..N s - 1] = i # [i + 1..N s - 1]"
      using True by (intro upto_rec1) simp
    ultimately show ?thesis
      using True st by (subst baseMod_loop.simps) (simp add: f(4) s1_def)
  next
    case False
    then show ?thesis by (subst baseMod_loop.simps) simp
  qed
qed

lemma fastMod_loop_sweep:
  "sized s \<Longrightarrow> safe_div s \<Longrightarrow> 0 \<le> i \<Longrightarrow>
     fastMod_loop i s = Inr (fold (sweep_step guard_val guard_ev) [i..N s - 1] s)"
proof (induction i s rule: fastMod_loop.induct)
  case (1 i s)
  show ?case
  proof (cases "i < N s")
    case True
    define s1 where "s1 = sweep_step guard_val guard_ev i s"
    have st: "fast_stmt i s = Inr s1"
      unfolding s1_def using "1.prems" True by (simp add: fast_stmt_step)
    have f: "sized s1" "safe_div s1" "0 \<le> i + 1" "N s1 = N s"
      using "1.prems" by (simp_all add: s1_def)
    have "fastMod_loop (i + 1) s1 = Inr (fold (sweep_step guard_val guard_ev) [i + 1..N s1 - 1] s1)"
      using f(1-3) by (rule "1.IH" [OF True st])
    moreover have "[i..N s - 1] = i # [i + 1..N s - 1]"
      using True by (intro upto_rec1) simp
    ultimately show ?thesis
      using True st by (subst fastMod_loop.simps) (simp add: f(4) s1_def)
  next
    case False
    then show ?thesis by (subst fastMod_loop.simps) simp
  qed
qed

lemma fastModHint_loop_sweep:
  "sized s \<Longrightarrow> safe_div s \<Longrightarrow> 0 \<le> i \<Longrightarrow>
     fastModHint_loop i s = Inr (fold (sweep_step guard_val guard_ev) [i..N s - 1] s)"
proof (induction i s rule: fastModHint_loop.induct)
  case (1 i s)
  show ?case
  proof (cases "i < N s")
    case True
    define s1 where "s1 = sweep_step guard_val guard_ev i s"
    have st: "hint_stmt i s = Inr s1"
      unfolding s1_def using "1.prems" True by (simp add: hint_stmt_step)
    have f: "sized s1" "safe_div s1" "0 \<le> i + 1" "N s1 = N s"
      using "1.prems" by (simp_all add: s1_def)
    have "fastModHint_loop (i + 1) s1 = Inr (fold (sweep_step guard_val guard_ev) [i + 1..N s1 - 1] s1)"
      using f(1-3) by (rule "1.IH" [OF True st])
    moreover have "[i..N s - 1] = i # [i + 1..N s - 1]"
      using True by (intro upto_rec1) simp
    ultimately show ?thesis
      using True st by (subst fastModHint_loop.simps) (simp add: f(4) s1_def)
  next
    case False
    then show ?thesis by (subst fastModHint_loop.simps) simp
  qed
qed

lemma unrollMod_body_sweep:
  assumes "sized s" "safe_div s" "0 \<le> i" "i + 4 \<le> N s"
  shows "unrollMod_body i s = Inr (fold (sweep_step mod_val mod_ev) [i, i + 1, i + 2, i + 3] s)"
  using assms by (simp add: unrollMod_body_def seq_def mod_stmt_step)

lemma unrollMod_body_oob:
  assumes "sized s" "safe_div s" "0 \<le> i" "i < N s" "N s < i + 4"
  shows "unrollMod_body i s = Inl OutOfBounds"
proof -
  consider "N s = i + 1" | "N s = i + 2" | "N s = i + 3" using assms by linarith
  then show ?thesis
    using assms by cases (simp_all add: unrollMod_body_def seq_def mod_stmt_step mod_stmt_oob)
qed

lemma unrollMod_loop_sweep:
  "sized s \<Longrightarrow> safe_div s \<Longrightarrow> 0 \<le> i \<Longrightarrow> 4 dvd (N s - i) \<Longrightarrow>
     unrollMod_loop i s = Inr (fold (sweep_step mod_val mod_ev) [i..N s - 1] s)"
proof (induction i s rule: unrollMod_loop.induct)
  case (1 i s)
  show ?case
  proof (cases "i < N s")
    case True
    with "1.prems" have le: "i + 4 \<le> N s" by presburger
    define s1 where "s1 = fold (sweep_step mod_val mod_ev) [i, i + 1, i + 2, i + 3] s"
    have st: "unrollMod_body i s = Inr s1"
      unfolding s1_def using "1.prems"(1-3) le by (rule unrollMod_body_sweep)
    have f: "sized s1" "safe_div s1" "N s1 = N s"
      using "1.prems" by (simp_all add: s1_def)
    have d: "0 \<le> i + 4" "4 dvd (N s1 - (i + 4))"
      using "1.prems" f(3) by (simp, presburger)
    have "unrollMod_loop (i + 4) s1 = Inr (fold (sweep_step mod_val mod_ev) [i + 4..N s1 - 1] s1)"
      using f(1,2) d by (rule "1.IH" [OF True st])
    then have "unrollMod_loop (i + 4) s1 = Inr (fold (sweep_step mod_val mod_ev) [i..N s - 1] s)"
      by (simp add: f(3) upto_four [OF le] s1_def)
    then show ?thesis
      using True st by (subst unrollMod_loop.simps) simp
  next
    case False
    then show ?thesis by (subst unrollMod_loop.simps) simp
  qed
qed

lemma unrollMod_loop_oob:
  "sized s \<Longrightarrow> safe_div s \<Longrightarrow> 0 \<le> i \<Longrightarrow> i \<le> N s \<Longrightarrow> \<not> 4 dvd (N s - i) \<Longrightarrow>
     unrollMod_loop i s = Inl OutOfBounds"
proof (induction i s rule: unrollMod_loop.induct)
  case (1 i s)
  from "1.prems" have lt: "i < N s" by (cases "i = N s") auto
  show ?case
  proof (cases "i + 4 \<le> N s")
    case True
    define s1 where "s1 = fold (sweep_step mod_val mod_ev) [i, i + 1, i + 2, i + 3] s"
    have st: "unrollMod_body i s = Inr s1"
      unfolding s1_def using "1.prems"(1-3) True by (rule unrollMod_body_sweep)
    have f: "sized s1" "safe_div s1" "N s1 = N s"
      using "1.prems" by (simp_all add: s1_def)
    have d: "0 \<le> i + 4" "i + 4 \<le> N s1" "\<not> 4 dvd (N s1 - (i + 4))"
      using "1.prems" f(3) True by (simp, simp, presburger)
    have "unrollMod_loop (i + 4) s1 = Inl OutOfBounds"
      using f(1,2) d by (rule "1.IH" [OF lt st])
    then show ?thesis
      using lt st by (subst unrollMod_loop.simps) simp
  next
    case False
    then have "unrollMod_body i s = Inl OutOfBounds"
      using "1.prems" lt by (intro unrollMod_body_oob) simp_all
    then show ?thesis
      using lt by (subst unrollMod_loop.simps) simp
  qed
qed

lemma fastModHintUnroll_body_sweep:
  assumes "sized s" "safe_div s" "0 \<le> i" "i + 4 \<le> N s"
  shows "fastModHintUnroll_body i s = Inr (fold (sweep_step guard_val guard_ev) [i, i + 1, i + 2, i + 3] s)"
  using assms by (simp add: fastModHintUnroll_body_def seq_def hint_stmt_step)

lemma fastModHintUnroll_body_oob:
  assumes "sized s" "safe_div s" "0 \<le> i" "i < N s" "N s < i + 4"
  shows "fastModHintUnroll_body i s = Inl OutOfBounds"
proof -
  consider "N s = i + 1" | "N s = i + 2" | "N s = i + 3" using assms by linarith
  then show ?thesis
    using assms by cases (simp_all add: fastModHintUnroll_body_def seq_def hint_stmt_step hint_stmt_oob)
qed

lemma fastModHintUnroll_loop_sweep:
  "sized s \<Longrightarrow> safe_div s \<Longrightarrow> 0 \<le> i \<Longrightarrow> 4 dvd (N s - i) \<Longrightarrow>
     fastModHintUnroll_loop i s = Inr (fold (sweep_step guard_val guard_ev) [i..N s - 1] s)"
proof (induction i s rule: fastModHintUnroll_loop.induct)
  case (1 i s)
  show ?case
  proof (cases "i < N s")
    case True
    with "1.prems" have le: "i + 4 \<le> N s" by presburger
    define s1 where "s1 = fold (sweep_step guard_val guard_ev) [i, i + 1, i + 2, i + 3] s"
    have st: "fastModHintUnroll_body i s = Inr s1"
      unfolding s1_def using "1.prems"(1-3) le by (rule fastModHintUnroll_body_sweep)
    have f: "sized s1" "safe_div s1" "N s1 = N s"
      using "1.prems" by (simp_all add: s1_def)
    have d: "0 \<le> i + 4" "4 dvd (N s1 - (i + 4))"
      using "1.prems" f(3) by (simp, presburger)
    have "fastModHintUnroll_loop (i + 4) s1 = Inr (fold (sweep_step guard_val guard_ev) [i + 4..N s1 - 1] s1)"
      using f(1,2) d by (rule "1.IH" [OF True st])
    then have "fastModHintUnroll_loop (i + 4) s1 = Inr (fold (sweep_step guard_val guard_ev) [i..N s - 1] s)"
      by (simp add: f(3) upto_four [OF le] s1_def)
    then show ?thesis
      using True st by (subst fastModHintUnroll_loop.simps) simp
  next
    case False
    then show ?thesis by (subst fastModHintUnroll_loop.simps) simp
  qed
qed

lemma fastModHintUnroll_loop_oob:
  "sized s \<Longrightarrow> safe_div s \<Longrightarrow> 0 \<le> i \<Longrightarrow> i \<le> N s \<Longrightarrow> \<not> 4 dvd (N s - i) \<Longrightarrow>
     fastModHintUnroll_loop i s = Inl OutOfBounds"
proof (induction i s rule: fastModHintUnroll_loop.induct)
  case (1 i s)
  from "1.prems" have lt: "i < N s" by (cases "i = N s") auto
  show ?case
  proof (cases "i + 4 \<le> N s")
    case True
    define s1 where "s1 = fold (sweep_step guard_val guard_ev) [i, i + 1, i + 2, i + 3] s"
    have st: "fastModHintUnroll_body i s = Inr s1"
      unfolding s1_def using "1.prems"(1-3) True by (rule fastModHintUnroll_body_sweep)
    have f: "sized s1" "safe_div s1" "N s1 = N s"
      using "1.prems" by (simp_all add: s1_def)
    have d: "0 \<le> i + 4" "i + 4 \<le> N s1" "\<not> 4 dvd (N s1 - (i + 4))"
      using "1.prems" f(3) True by (simp, simp, presburger)
    have "fastModHintUnroll_loop (i + 4) s1 = Inl OutOfBounds"
      using f(1,2) d by (rule "1.IH" [OF lt st])
    then show ?thesis
      using lt st by (subst fastModHintUnroll_loop.simps) simp
  next
    case False
    then have "fastModHintUnroll_body i s = Inl OutOfBounds"
      using "1.prems" lt by (intro fastModHintUnroll_body_oob) simp_all
    then show ?thesis
      using lt by (subst fastModHintUnroll_loop.simps) simp
  qed
qed

subsection \<open>What a sweep leaves in \<open>output\<close> and in \<open>trace\<close>\<close>

lemma fold_sweep_trace:
  "trace (fold (sweep_step g ev) js s) = trace s @ concat (map ev js)"
  by (induction js arbitrary: s) simp_all

lemma fold_sweep_output_nth:
  "\<forall>j \<in> set js. 0 \<le> j \<Longrightarrow> k < length (output s) \<Longrightarrow>
     output (fold (sweep_step g ev) js s) ! k =
       (if int k \<in> set js then g (ceil s) (input s ! k) else output s ! k)"
proof (induction js arbitrary: s)
  case Nil
  then show ?case by simp
next
  case (Cons j js)
  have j: "0 \<le> j" using Cons.prems by simp
  have "output (sweep_step g ev j s) ! k =
          (if j = int k then g (ceil s) (input s ! k) else output s ! k)"
    using j Cons.prems(2) by (auto simp: sweep_step_def nth_list_update)
  moreover have "output (fold (sweep_step g ev) js (sweep_step g ev j s)) ! k =
      (if int k \<in> set js then g (ceil s) (input s ! k) else output (sweep_step g ev j s) ! k)"
    using Cons.IH [of "sweep_step g ev j s"] Cons.prems by simp
  ultimately show ?case by auto
qed

lemma sweep_all_output:
  assumes "sized s"
  shows "output (fold (sweep_step g ev) [0..N s - 1] s) = map (g (ceil s)) (input s)"
proof (rule nth_equalityI)
  show "length (output (fold (sweep_step g ev) [0..N s - 1] s)) = length (map (g (ceil s)) (input s))"
    using assms by (simp add: sized_def)
next
  fix k assume "k < length (output (fold (sweep_step g ev) [0..N s - 1] s))"
  then have k: "k < length (output s)" by simp
  then have "int k \<in> set [0..N s - 1]" using assms by (simp add: sized_def)
  moreover have "k < length (input s)" using k assms by (simp add: sized_def)
  ultimately show "output (fold (sweep_step g ev) [0..N s - 1] s) ! k = map (g (ceil s)) (input s) ! k"
    using fold_sweep_output_nth [of "[0..N s - 1]" k s g ev] k by simp
qed

lemma mod_val_nonneg: "0 \<le> x \<Longrightarrow> 0 < c \<Longrightarrow> mod_val c x = x mod c"
  by (simp add: mod_val_def signed_modulo_int_def sgn_if)

lemma guard_val_nonneg: "0 \<le> x \<Longrightarrow> 0 < c \<Longrightarrow> guard_val c x = x mod c"
  by (simp add: guard_val_def signed_modulo_int_def sgn_if)

lemma guard_val_below: "x < c \<Longrightarrow> guard_val c x = x"
  by (simp add: guard_val_def)

lemma mod_val_neg_ceil: "0 \<le> x \<Longrightarrow> c < 0 \<Longrightarrow> mod_val c x = x mod (- c)"
  by (simp add: mod_val_def signed_modulo_int_def sgn_if)

lemma guard_val_neg_ceil: "0 \<le> x \<Longrightarrow> c < 0 \<Longrightarrow> guard_val c x = x mod (- c)"
  by (simp add: guard_val_def signed_modulo_int_def sgn_if)

lemma count_list_distinct: "distinct xs \<Longrightarrow> x \<in> set xs \<Longrightarrow> count_list xs x = 1"
  by (induction xs) auto

lemma count_write_mod_ev: "count_list (concat (map mod_ev js)) (Write j) = count_list js j"
  by (induction js) (simp_all add: mod_ev_def)

lemma count_write_guard_ev: "count_list (concat (map guard_ev js)) (Write j) = count_list js j"
  by (induction js) (simp_all add: guard_ev_def)

lemma index_mod_ev: "a \<in> set (concat (map mod_ev js)) \<Longrightarrow> index_of a \<in> set js"
  by (auto simp: mod_ev_def)

lemma index_guard_ev: "a \<in> set (concat (map guard_ev js)) \<Longrightarrow> index_of a \<in> set js"
  by (auto simp: guard_ev_def)

subsection \<open>The passes in closed form\<close>

lemma sized_nonneg: "sized s \<Longrightarrow> 0 \<le> N s"
  by (auto simp: sized_def)

lemma pos_safe_div: "0 < ceil s \<Longrightarrow> safe_div s"
  by (simp add: safe_div_def)

lemma baseMod_pass_sweep:
  "sized s \<Longrightarrow> safe_div s \<Longrightarrow>
     baseMod_pass s = Inr (fold (sweep_step mod_val mod_ev) [0..N s - 1] s)"
  unfolding baseMod_pass_def by (rule baseMod_loop_sweep) simp_all

lemma fastMod_pass_sweep:
  "sized s \<Longrightarrow> safe_div s \<Longrightarrow>
     fastMod_pass s = Inr (fold (sweep_step guard_val guard_ev) [0..N s - 1] s)"
  unfolding fastMod_pass_def by (rule fastMod_loop_sweep) simp_all

lemma fastModHint_pass_sweep:
  "sized s \<Longrightarrow> safe_div s \<Longrightarrow>
     fastModHint_pass s = Inr (fold (sweep_step guard_val guard_ev) [0..N s - 1] s)"
  unfolding fastModHint_pass_def by (rule fastModHint_loop_sweep) simp_all

lemma unrollMod_pass_sweep:
  "sized s \<Longrightarrow> safe_div s \<Longrightarrow> 4 dvd N s \<Longrightarrow>
     unrollMod_pass s = Inr (fold (sweep_step mod_val mod_ev) [0..N s - 1] s)"
  unfolding unrollMod_pass_def by (rule unrollMod_loop_sweep) simp_all

lemma fastModHintUnroll_pass_sweep:
  "sized s \<Longrightarrow> safe_div s \<Longrightarrow> 4 dvd N s \<Longrightarrow>
     fastModHintUnroll_pass s = Inr (fold (sweep_step guard_val guard_ev) [0..N s - 1] s)"
  unfolding fastModHintUnroll_pass_def by (rule fastModHintUnroll_loop_sweep) simp_all

lemma unrollMod_pass_oob:
  "sized s \<Longrightarrow> safe_div s \<Longrightarrow> \<not> 4 dvd N s \<Longrightarrow> unrollMod_pass s = Inl OutOfBounds"
  unfolding unrollMod_pass_def by (rule unrollMod_loop_oob) (simp_all add: sized_nonneg)

lemma fastModHintUnroll_pass_oob:
  "sized s \<Longrightarrow> safe_div s \<Longrightarrow> \<not> 4 dvd N s \<Longrightarrow> fastModHintUnroll_pass s = Inl OutOfBounds"
  unfolding fastModHintUnroll_pass_def by (rule fastModHintUnroll_loop_oob) (simp_all add: sized_nonneg)

lemma mod_val_in_range:
  "\<forall>x \<in> set xs. 0 \<le> x \<and> x \<le> 255 \<Longrightarrow> 0 < c \<Longrightarrow> map (mod_val c) xs = map (\<lambda>x. x mod c) xs"
  by (simp add: mod_val_nonneg)

lemma guard_val_in_range:
  "\<forall>x \<in> set xs. 0 \<le> x \<and> x \<le> 255 \<Longrightarrow> 0 < c \<Longrightarrow> map (guard_val c) xs = map (\<lambda>x. x mod c) xs"
  by (simp add: guard_val_nonneg)

lemma mod_pass_output:
  assumes "sized s" "\<forall>x \<in> set (input s). 0 \<le> x \<and> x \<le> 255" "0 < ceil s"
  shows "pass_output baseMod_pass s = Inr (map (\<lambda>x. x mod ceil s) (input s))"
    and "pass_output fastMod_pass s = Inr (map (\<lambda>x. x mod ceil s) (input s))"
    and "pass_output fastModHint_pass s = Inr (map (\<lambda>x. x mod ceil s) (input s))"
    and "4 dvd N s \<Longrightarrow> pass_output unrollMod_pass s = Inr (map (\<lambda>x. x mod ceil s) (input s))"
    and "4 dvd N s \<Longrightarrow> pass_output fastModHintUnroll_pass s = Inr (map (\<lambda>x. x mod ceil s) (input s))"
proof -
  have sd: "safe_div s" using assms(3) by (rule pos_safe_div)
  note r = mod_val_in_range [OF assms(2,3)] guard_val_in_range [OF assms(2,3)]
  show "pass_output baseMod_pass s = Inr (map (\<lambda>x. x mod ceil s) (input s))"
    by (simp add: pass_output_def baseMod_pass_sweep [OF assms(1) sd] sweep_all_output [OF assms(1)] r)
  show "pass_output fastMod_pass s = Inr (map (\<lambda>x. x mod ceil s) (input s))"
    by (simp add: pass_output_def fastMod_pass_sweep [OF assms(1) sd] sweep_all_output [OF assms(1)] r)
  show "pass_output fastModHint_pass s = Inr (map (\<lambda>x. x mod ceil s) (input s))"
    by (simp add: pass_output_def fastModHint_pass_sweep [OF assms(1) sd] sweep_all_output [OF assms(1)] r)
  show "pass_output unrollMod_pass s = Inr (map (\<lambda>x. x mod ceil s) (input s))" if "4 dvd N s"
    by (simp add: pass_output_def unrollMod_pass_sweep [OF assms(1) sd that] sweep_all_output [OF assms(1)] r)
  show "pass_output fastModHintUnroll_pass s = Inr (map (\<lambda>x. x mod ceil s) (input s))" if "4 dvd N s"
    by (simp add: pass_output_def fastModHintUnroll_pass_sweep [OF assms(1) sd that] sweep_all_output [OF assms(1)] r)
qed

subsection \<open>The benchmark functions as a whole\<close>

text \<open>
  Every pass of the \<open>while\<close> statement starts from vectors of \<open>N\<close> elements and the
  same input, so from the second pass on a pass rewrites the output it finds. After at
  least one pass the output is the input reduced modulo the ceiling.
\<close>

lemma keep_running_sweep:
  assumes pass: "\<And>t. sized t \<Longrightarrow> safe_div t \<Longrightarrow> N t = n \<Longrightarrow>
                    pass t = Inr (fold (sweep_step g ev) [0..N t - 1] t)"
  shows "sized s \<Longrightarrow> safe_div s \<Longrightarrow> N s = n \<Longrightarrow>
     \<exists>s'. keep_running k pass s = Inr s' \<and> sized s' \<and> N s' = N s \<and> ceil s' = ceil s \<and>
          input s' = input s \<and> (0 < k \<longrightarrow> output s' = map (g (ceil s)) (input s))"
proof (induction k arbitrary: s)
  case 0
  then show ?case by simp
next
  case (Suc k)
  define s1 where "s1 = fold (sweep_step g ev) [0..N s - 1] s"
  have p: "pass s = Inr s1" unfolding s1_def using Suc.prems by (rule pass)
  have f: "sized s1" "safe_div s1" "N s1 = n" "N s1 = N s" "ceil s1 = ceil s" "input s1 = input s"
    using Suc.prems by (simp_all add: s1_def)
  have o: "output s1 = map (g (ceil s)) (input s)"
    unfolding s1_def using Suc.prems(1) by (rule sweep_all_output)
  from Suc.IH [OF f(1-3)] obtain s' where
    r: "keep_running k pass s1 = Inr s'" "sized s'" "N s' = N s1" "ceil s' = ceil s1"
       "input s' = input s1" "0 < k \<longrightarrow> output s' = map (g (ceil s1)) (input s1)"
    by blast
  have "output s' = map (g (ceil s)) (input s)"
  proof (cases k)
    case 0
    with r(1) have "s' = s1" by simp
    with o show ?thesis by simp
  next
    case (Suc m)
    with r(6) f show ?thesis by simp
  qed
  with p r f show ?case by simp
qed

lemma prologue_Inr:
  "0 \<le> n \<Longrightarrow> \<exists>s. prologue n c dist = Inr s \<and> sized s \<and> N s = n \<and> ceil s = c \<and>
     input s = map dist [0..<nat n]"
  by (simp add: prologue_def sized_def)

lemma benchmark_sweep:
  assumes pass: "\<And>t. sized t \<Longrightarrow> safe_div t \<Longrightarrow> N t = n \<Longrightarrow>
                    pass t = Inr (fold (sweep_step g ev) [0..N t - 1] t)"
    and val: "\<And>xs. \<forall>x \<in> set xs. 0 \<le> x \<and> x \<le> 255 \<Longrightarrow> 0 < c \<Longrightarrow>
                    map (g c) xs = map (\<lambda>x. x mod c) xs"
    and "0 \<le> n" and "0 < c" and "\<forall>i. 0 \<le> dist i \<and> dist i \<le> 255"
  shows "\<exists>s'. (case prologue n c dist of Inl e \<Rightarrow> Inl e | Inr s \<Rightarrow> keep_running (Suc k) pass s) = Inr s'
           \<and> output s' = map (\<lambda>x. x mod c) (map dist [0..<nat n])"
proof -
  from prologue_Inr [OF assms(3)] obtain s where
    s: "prologue n c dist = Inr s" "sized s" "N s = n" "ceil s = c" "input s = map dist [0..<nat n]"
    by blast
  have sd: "safe_div s" using assms(4) s(4) by (simp add: safe_div_def)
  have rg: "\<forall>x \<in> set (input s). 0 \<le> x \<and> x \<le> 255" using assms(5) s(5) by simp
  from keep_running_sweep [of n pass g ev s "Suc k", OF pass s(2) sd s(3)] obtain s' where
    r: "keep_running (Suc k) pass s = Inr s'" "output s' = map (g (ceil s)) (input s)"
    by blast
  have "map (g c) (input s) = map (\<lambda>x. x mod c) (input s)"
    using rg assms(4) by (rule val)
  with r(2) s(4,5) have "output s' = map (\<lambda>x. x mod c) (map dist [0..<nat n])" by simp
  with r(1) s(1) show ?thesis by simp
qed

lemma benchmark_functions_output:
  assumes "0 \<le> n" and "0 < c" and "\<forall>i. 0 \<le> dist i \<and> dist i \<le> 255"
  shows "\<exists>s'. baseMod n c dist (Suc k) = Inr s' \<and> output s' = map (\<lambda>x. x mod c) (map dist [0..<nat n])"
    and "\<exists>s'. fastMod n c dist (Suc k) = Inr s' \<and> output s' = map (\<lambda>x. x mod c) (map dist [0..<nat n])"
    and "\<exists>s'. fastModHint n c dist (Suc k) = Inr s' \<and> output s' = map (\<lambda>x. x mod c) (map dist [0..<nat n])"
    and "4 dvd n \<Longrightarrow>
      \<exists>s'. unrollMod n c dist (Suc k) = Inr s' \<and> output s' = map (\<lambda>x. x mod c) (map dist [0..<nat n])"
    and "4 dvd n \<Longrightarrow>
      \<exists>s'. fastModHintUnroll n c dist (Suc k) = Inr s' \<and> output s' = map (\<lambda>x. x mod c) (map dist [0..<nat n])"
proof -
  show "\<exists>s'. baseMod n c dist (Suc k) = Inr s' \<and> output s' = map (\<lambda>x. x mod c) (map dist [0..<nat n])"
    unfolding baseMod_def using baseMod_pass_sweep mod_val_in_range assms by (rule benchmark_sweep)
  show "\<exists>s'. fastMod n c dist (Suc k) = Inr s' \<and> output s' = map (\<lambda>x. x mod c) (map dist [0..<nat n])"
    unfolding fastMod_def using fastMod_pass_sweep guard_val_in_range assms by (rule benchmark_sweep)
  show "\<exists>s'. fastModHint n c dist (Suc k) = Inr s' \<and> output s' = map (\<lambda>x. x mod c) (map dist [0..<nat n])"
    unfolding fastModHint_def using fastModHint_pass_sweep guard_val_in_range assms
    by (rule benchmark_sweep)
  show "\<exists>s'. unrollMod n c dist (Suc k) = Inr s' \<and> output s' = map (\<lambda>x. x mod c) (map dist [0..<nat n])"
    if d: "4 dvd n"
  proof -
    have "\<And>t. sized t \<Longrightarrow> safe_div t \<Longrightarrow> N t = n \<Longrightarrow>
            unrollMod_pass t = Inr (fold (sweep_step mod_val mod_ev) [0..N t - 1] t)"
      using d by (simp add: unrollMod_pass_sweep)
    then show ?thesis
      unfolding unrollMod_def using mod_val_in_range assms by (rule benchmark_sweep)
  qed
  show "\<exists>s'. fastModHintUnroll n c dist (Suc k) = Inr s' \<and> output s' = map (\<lambda>x. x mod c) (map dist [0..<nat n])"
    if d: "4 dvd n"
  proof -
    have "\<And>t. sized t \<Longrightarrow> safe_div t \<Longrightarrow> N t = n \<Longrightarrow>
            fastModHintUnroll_pass t = Inr (fold (sweep_step guard_val guard_ev) [0..N t - 1] t)"
      using d by (simp add: fastModHintUnroll_pass_sweep)
    then show ?thesis
      unfolding fastModHintUnroll_def using guard_val_in_range assms by (rule benchmark_sweep)
  qed
qed

text \<open>The equations that evaluate a pass on a concrete state.\<close>

lemmas eval_defs =
  baseMod_pass_def unrollMod_pass_def fastMod_pass_def fastModHint_pass_def
  fastModHintUnroll_pass_def
  baseMod_loop.simps unrollMod_loop.simps fastMod_loop.simps fastModHint_loop.simps
  fastModHintUnroll_loop.simps
  unrollMod_body_def fastModHintUnroll_body_def seq_def
  mod_stmt_def fast_stmt_def hint_stmt_def builtin_expect_def
  read_input_def write_output_def c_rem_def INT_MIN_def signed_modulo_int_def
  pass_output_def

section \<open>The claims\<close>

text \<open>
  In the theorems below, a state \<open>s\<close> with \<open>sized s\<close> is what a benchmark function
  holds when its loop starts: \<open>N s\<close> is the number of elements, \<open>ceil s\<close> the ceiling,
  \<open>input s\<close> the input sequence and \<open>output s\<close> the vector the pass writes.
\<close>

subsection \<open>Agreement of the five variants\<close>

text \<open>
  Claim C1. For every input sequence with elements in \<open>[0, 255]\<close> and every positive
  ceiling, the baseline pass produces an output sequence, the two guarded passes
  produce the same one, and when \<open>N\<close> is a multiple of 4 so do the two unrolled passes.
\<close>

theorem variants_agree:
  assumes "sized s" and "\<forall>x \<in> set (input s). 0 \<le> x \<and> x \<le> 255" and "0 < ceil s"
  shows "(\<exists>out. pass_output baseMod_pass s = Inr out)
    \<and> pass_output fastMod_pass s = pass_output baseMod_pass s
    \<and> pass_output fastModHint_pass s = pass_output baseMod_pass s
    \<and> (4 dvd N s \<longrightarrow>
          pass_output unrollMod_pass s = pass_output baseMod_pass s
        \<and> pass_output fastModHintUnroll_pass s = pass_output baseMod_pass s)"
  using mod_pass_output [OF assms] by simp

theorem variants_agree_witness:
  "sized \<lparr>N = 4, ceil = 128, input = [3, 130, 255, 0], output = [0, 0, 0, 0], trace = []\<rparr>
   \<and> pass_output baseMod_pass
        \<lparr>N = 4, ceil = 128, input = [3, 130, 255, 0], output = [0, 0, 0, 0], trace = []\<rparr>
      = Inr [3, 2, 127, 0]
   \<and> pass_output fastMod_pass
        \<lparr>N = 4, ceil = 128, input = [3, 130, 255, 0], output = [0, 0, 0, 0], trace = []\<rparr>
      = Inr [3, 2, 127, 0]
   \<and> pass_output fastModHintUnroll_pass
        \<lparr>N = 4, ceil = 128, input = [3, 130, 255, 0], output = [0, 0, 0, 0], trace = []\<rparr>
      = Inr [3, 2, 127, 0]"
proof -
  let ?s = "\<lparr>N = 4, ceil = 128, input = [3, 130, 255, 0], output = [0, 0, 0, 0], trace = []\<rparr>"
  have h: "sized ?s" "\<forall>x \<in> set (input ?s). 0 \<le> x \<and> x \<le> 255" "0 < ceil ?s"
    by (simp_all add: sized_def)
  have b: "pass_output baseMod_pass ?s = Inr [3, 2, 127, 0]"
    by (simp add: eval_defs)
  show ?thesis
    using variants_agree [OF h] h(1) b by simp
qed

subsection \<open>The scenario of the specification\<close>

text \<open>
  Claim C6. On the input \<open>[5, 40, 7, 200]\<close> with ceiling 32, each of the five passes
  produces \<open>[5, 8, 7, 8]\<close>.
\<close>

theorem scenario_agree:
  "pass_output baseMod_pass
     \<lparr>N = 4, ceil = 32, input = [5, 40, 7, 200], output = [0, 0, 0, 0], trace = []\<rparr> = Inr [5, 8, 7, 8]
   \<and> pass_output unrollMod_pass
     \<lparr>N = 4, ceil = 32, input = [5, 40, 7, 200], output = [0, 0, 0, 0], trace = []\<rparr> = Inr [5, 8, 7, 8]
   \<and> pass_output fastMod_pass
     \<lparr>N = 4, ceil = 32, input = [5, 40, 7, 200], output = [0, 0, 0, 0], trace = []\<rparr> = Inr [5, 8, 7, 8]
   \<and> pass_output fastModHint_pass
     \<lparr>N = 4, ceil = 32, input = [5, 40, 7, 200], output = [0, 0, 0, 0], trace = []\<rparr> = Inr [5, 8, 7, 8]
   \<and> pass_output fastModHintUnroll_pass
     \<lparr>N = 4, ceil = 32, input = [5, 40, 7, 200], output = [0, 0, 0, 0], trace = []\<rparr> = Inr [5, 8, 7, 8]"
  by (simp add: eval_defs)

subsection \<open>The contract \<open>output[i] = input[i] mod C\<close>\<close>

lemma computes_modI:
  assumes "sized s" "pass_output f s = Inr (map (\<lambda>x. x mod ceil s) (input s))"
  shows "computes_mod f s"
  using assms by (auto simp: computes_mod_def pass_output_def sized_def split: sum.splits)

text \<open>
  Claim C2, as amended. For every input sequence of length \<open>N\<close> with elements in
  \<open>[0, 255]\<close> and every positive ceiling, the baseline pass and the two guarded passes
  that are not unrolled yield an output sequence of length \<open>N\<close> with
  \<open>output[i] = input[i] mod C\<close> for every index; the two unrolled passes do so when
  \<open>N\<close> is a multiple of 4.
\<close>

theorem kernel_computes_mod:
  assumes "sized s" and "\<forall>x \<in> set (input s). 0 \<le> x \<and> x \<le> 255" and "0 < ceil s"
  shows "computes_mod baseMod_pass s
    \<and> computes_mod fastMod_pass s
    \<and> computes_mod fastModHint_pass s
    \<and> (4 dvd N s \<longrightarrow> computes_mod unrollMod_pass s \<and> computes_mod fastModHintUnroll_pass s)"
  using mod_pass_output [OF assms] assms(1) by (simp add: computes_modI)

theorem kernel_computes_mod_witness:
  "computes_mod baseMod_pass
      \<lparr>N = 4, ceil = 224, input = [0, 223, 224, 255], output = [0, 0, 0, 0], trace = []\<rparr>
   \<and> computes_mod unrollMod_pass
      \<lparr>N = 4, ceil = 224, input = [0, 223, 224, 255], output = [0, 0, 0, 0], trace = []\<rparr>
   \<and> pass_output unrollMod_pass
      \<lparr>N = 4, ceil = 224, input = [0, 223, 224, 255], output = [0, 0, 0, 0], trace = []\<rparr>
      = Inr [0, 223, 0, 31]"
proof -
  let ?s = "\<lparr>N = 4, ceil = 224, input = [0, 223, 224, 255], output = [0, 0, 0, 0], trace = []\<rparr>"
  have h: "sized ?s" "\<forall>x \<in> set (input ?s). 0 \<le> x \<and> x \<le> 255" "0 < ceil ?s"
    by (simp_all add: sized_def)
  have b: "pass_output unrollMod_pass ?s = Inr [0, 223, 0, 31]"
    by (simp add: eval_defs)
  show ?thesis
    using kernel_computes_mod [OF h] b by simp
qed

text \<open>
  Claim C2 as stated fails for an unrolled pass when \<open>N\<close> is not a multiple of 4: with
  one element, \<open>unrollMod\<close> evaluates \<open>input[1]\<close> in a vector of size 1.
\<close>

theorem unrolled_tail_counterexample:
  "sized \<lparr>N = 1, ceil = 32, input = [5], output = [0], trace = []\<rparr>
   \<and> unrollMod_pass \<lparr>N = 1, ceil = 32, input = [5], output = [0], trace = []\<rparr> = Inl OutOfBounds
   \<and> \<not> computes_mod unrollMod_pass \<lparr>N = 1, ceil = 32, input = [5], output = [0], trace = []\<rparr>"
  by (simp add: sized_def computes_mod_def eval_defs)

subsection \<open>Range of the output\<close>

lemma unrollMod_returns_dvd:
  "sized s \<Longrightarrow> safe_div s \<Longrightarrow> unrollMod_pass s = Inr s' \<Longrightarrow> 4 dvd N s"
  using unrollMod_pass_oob [of s] by auto

lemma fastModHintUnroll_returns_dvd:
  "sized s \<Longrightarrow> safe_div s \<Longrightarrow> fastModHintUnroll_pass s = Inr s' \<Longrightarrow> 4 dvd N s"
  using fastModHintUnroll_pass_oob [of s] by auto

lemma pass_output_Inr: "pass_output f s = Inr out \<longleftrightarrow> (\<exists>s'. f s = Inr s' \<and> output s' = out)"
  by (auto simp: pass_output_def split: sum.splits)

text \<open>
  Claim C3. For every input sequence with elements in \<open>[0, 255]\<close> and every positive
  ceiling, every element of the output sequence of every pass lies in \<open>[0, C)\<close>. The
  three passes that are not unrolled always return such an output; whenever an unrolled
  pass returns, its output is such, and it does return when \<open>N\<close> is a multiple of 4.
\<close>

theorem output_below_ceiling:
  assumes "sized s" and "\<forall>x \<in> set (input s). 0 \<le> x \<and> x \<le> 255" and "0 < ceil s"
  shows "(\<exists>s'. baseMod_pass s = Inr s' \<and> (\<forall>y \<in> set (output s'). 0 \<le> y \<and> y < ceil s))
    \<and> (\<exists>s'. fastMod_pass s = Inr s' \<and> (\<forall>y \<in> set (output s'). 0 \<le> y \<and> y < ceil s))
    \<and> (\<exists>s'. fastModHint_pass s = Inr s' \<and> (\<forall>y \<in> set (output s'). 0 \<le> y \<and> y < ceil s))
    \<and> (\<forall>s'. unrollMod_pass s = Inr s' \<longrightarrow> (\<forall>y \<in> set (output s'). 0 \<le> y \<and> y < ceil s))
    \<and> (\<forall>s'. fastModHintUnroll_pass s = Inr s' \<longrightarrow> (\<forall>y \<in> set (output s'). 0 \<le> y \<and> y < ceil s))
    \<and> (4 dvd N s \<longrightarrow> (\<exists>s'. unrollMod_pass s = Inr s') \<and> (\<exists>s'. fastModHintUnroll_pass s = Inr s'))"
proof -
  note m = mod_pass_output [OF assms]
  have sd: "safe_div s" using assms(3) by (rule pos_safe_div)
  have b: "\<And>s'. output s' = map (\<lambda>x. x mod ceil s) (input s) \<Longrightarrow>
            \<forall>y \<in> set (output s'). 0 \<le> y \<and> y < ceil s"
    using assms(3) by auto
  have 1: "\<exists>s'. baseMod_pass s = Inr s' \<and> (\<forall>y \<in> set (output s'). 0 \<le> y \<and> y < ceil s)"
    using m(1) b unfolding pass_output_Inr by blast
  have 2: "\<exists>s'. fastMod_pass s = Inr s' \<and> (\<forall>y \<in> set (output s'). 0 \<le> y \<and> y < ceil s)"
    using m(2) b unfolding pass_output_Inr by blast
  have 3: "\<exists>s'. fastModHint_pass s = Inr s' \<and> (\<forall>y \<in> set (output s'). 0 \<le> y \<and> y < ceil s)"
    using m(3) b unfolding pass_output_Inr by blast
  have 4: "\<forall>y \<in> set (output s'). 0 \<le> y \<and> y < ceil s" if r: "unrollMod_pass s = Inr s'" for s'
  proof -
    have "4 dvd N s" using assms(1) sd r by (rule unrollMod_returns_dvd)
    from m(4) [OF this] r have "output s' = map (\<lambda>x. x mod ceil s) (input s)"
      by (simp add: pass_output_def)
    then show ?thesis by (rule b)
  qed
  have 5: "\<forall>y \<in> set (output s'). 0 \<le> y \<and> y < ceil s" if r: "fastModHintUnroll_pass s = Inr s'" for s'
  proof -
    have "4 dvd N s" using assms(1) sd r by (rule fastModHintUnroll_returns_dvd)
    from m(5) [OF this] r have "output s' = map (\<lambda>x. x mod ceil s) (input s)"
      by (simp add: pass_output_def)
    then show ?thesis by (rule b)
  qed
  have 6: "(\<exists>s'. unrollMod_pass s = Inr s') \<and> (\<exists>s'. fastModHintUnroll_pass s = Inr s')" if "4 dvd N s"
    using m(4) [OF that] m(5) [OF that] unfolding pass_output_Inr by blast
  from 1 2 3 4 5 6 show ?thesis by blast
qed

theorem output_below_ceiling_witness:
  "\<exists>s'. unrollMod_pass
      \<lparr>N = 4, ceil = 32, input = [5, 40, 7, 200], output = [0, 0, 0, 0], trace = []\<rparr> = Inr s'
     \<and> output s' = [5, 8, 7, 8] \<and> 0 \<le> output s' ! 3 \<and> output s' ! 3 < 32"
proof -
  let ?s = "\<lparr>N = 4, ceil = 32, input = [5, 40, 7, 200], output = [0, 0, 0, 0], trace = []\<rparr>"
  have h: "sized ?s" "\<forall>x \<in> set (input ?s). 0 \<le> x \<and> x \<le> 255" "0 < ceil ?s"
    by (simp_all add: sized_def)
  have "4 dvd N ?s" by simp
  with output_below_ceiling [OF h] obtain s' where
    r: "unrollMod_pass ?s = Inr s'" and b: "\<forall>y \<in> set (output s'). 0 \<le> y \<and> y < ceil ?s"
    by blast
  have "pass_output unrollMod_pass ?s = Inr [5, 8, 7, 8]" by (simp add: eval_defs)
  with r have o: "output s' = [5, 8, 7, 8]" by (simp add: pass_output_def)
  with b have "0 \<le> output s' ! 3 \<and> output s' ! 3 < 32" by simp
  with r o show ?thesis by blast
qed

subsection \<open>The fast path\<close>

lemma mod_val_below: "0 \<le> x \<Longrightarrow> x < c \<Longrightarrow> mod_val c x = x"
  by (simp add: mod_val_def signed_modulo_int_def sgn_if)

lemma sweep_fast_path:
  assumes "sized s"
  shows "fast_path s (fold (sweep_step guard_val ev) [0..N s - 1] s)
           (fold (sweep_step mod_val ev') [0..N s - 1] s)"
  unfolding fast_path_def using assms
  by (simp add: sweep_all_output guard_val_below mod_val_below)

text \<open>
  Claim C4, as amended. For every input sequence and every positive ceiling, and for
  every index \<open>i\<close> with \<open>input[i] < C\<close>, \<open>fastMod\<close> and \<open>fastModHint\<close> return with
  \<open>output[i] = input[i]\<close>, and \<open>fastModHintUnroll\<close> does so when \<open>N\<close> is a multiple
  of 4; where moreover \<open>input[i]\<close> is not negative, as every element of \<open>[0, 255]\<close> is,
  the fast-path identity \<open>input[i] mod C = input[i]\<close> holds and the element is the one
  \<open>baseMod\<close> stores, so skipping the division does not change the result.
\<close>

theorem fast_path_identity:
  assumes "sized s" and "0 < ceil s"
  shows "(\<exists>s' b. fastMod_pass s = Inr s' \<and> baseMod_pass s = Inr b \<and> fast_path s s' b)
    \<and> (\<exists>s' b. fastModHint_pass s = Inr s' \<and> baseMod_pass s = Inr b \<and> fast_path s s' b)
    \<and> (4 dvd N s \<longrightarrow>
          (\<exists>s' b. fastModHintUnroll_pass s = Inr s' \<and> baseMod_pass s = Inr b \<and> fast_path s s' b))"
proof -
  have sd: "safe_div s" using assms(2) by (rule pos_safe_div)
  note fp = sweep_fast_path [OF assms(1), of guard_ev mod_ev]
  show ?thesis
    using fp baseMod_pass_sweep [OF assms(1) sd]
      fastMod_pass_sweep [OF assms(1) sd] fastModHint_pass_sweep [OF assms(1) sd]
      fastModHintUnroll_pass_sweep [OF assms(1) sd]
    by simp
qed

theorem fast_path_identity_witness:
  "\<exists>s' b. fastModHintUnroll_pass
      \<lparr>N = 4, ceil = 32, input = [31, 32, - 3, 100], output = [0, 0, 0, 0], trace = []\<rparr> = Inr s'
     \<and> baseMod_pass
      \<lparr>N = 4, ceil = 32, input = [31, 32, - 3, 100], output = [0, 0, 0, 0], trace = []\<rparr> = Inr b
     \<and> output s' ! 0 = 31 \<and> output b ! 0 = 31 \<and> output s' ! 2 = - 3"
proof -
  let ?s = "\<lparr>N = 4, ceil = 32, input = [31, 32, - 3, 100], output = [0, 0, 0, 0], trace = []\<rparr>"
  have h: "sized ?s" "0 < ceil ?s" by (simp_all add: sized_def)
  have "4 dvd N ?s" by simp
  with fast_path_identity [OF h] obtain s' b where
    r: "fastModHintUnroll_pass ?s = Inr s'" "baseMod_pass ?s = Inr b" and f: "fast_path ?s s' b"
    by blast
  from f have "output s' ! 0 = 31 \<and> output b ! 0 = 31" by (simp add: fast_path_def)
  moreover from f have "output s' ! 2 = - 3" by (simp add: fast_path_def)
  ultimately show ?thesis using r by blast
qed

text \<open>
  Claim C4 as stated fails in two places. The unrolled guarded pass returns no output
  when \<open>N\<close> is not a multiple of 4: with two elements below the ceiling it evaluates
  \<open>input[2]\<close> in a vector of size 2. And below 0 the identity does not hold: on the
  element \<open>-40\<close> with the ceiling 32 the guarded pass stores \<open>-40\<close>, while the division
  gives \<open>-40 % 32 = -8\<close>, which is what the baseline stores.
\<close>

theorem fast_path_counterexample:
  "sized \<lparr>N = 2, ceil = 32, input = [5, 7], output = [0, 0], trace = []\<rparr>
   \<and> input \<lparr>N = 2, ceil = 32, input = [5, 7], output = [0, 0], trace = []\<rparr> ! 0
       < ceil \<lparr>N = 2, ceil = 32, input = [5, 7], output = [0, 0], trace = []\<rparr>
   \<and> fastModHintUnroll_pass \<lparr>N = 2, ceil = 32, input = [5, 7], output = [0, 0], trace = []\<rparr>
       = Inl OutOfBounds
   \<and> sized \<lparr>N = 1, ceil = 32, input = [- 40], output = [0], trace = []\<rparr>
   \<and> input \<lparr>N = 1, ceil = 32, input = [- 40], output = [0], trace = []\<rparr> ! 0
       < ceil \<lparr>N = 1, ceil = 32, input = [- 40], output = [0], trace = []\<rparr>
   \<and> pass_output fastMod_pass \<lparr>N = 1, ceil = 32, input = [- 40], output = [0], trace = []\<rparr>
       = Inr [- 40]
   \<and> pass_output baseMod_pass \<lparr>N = 1, ceil = 32, input = [- 40], output = [0], trace = []\<rparr>
       = Inr [- 8]"
  by (simp add: sized_def eval_defs)

subsection \<open>Idempotence\<close>

lemma mod_keeps_range:
  "\<forall>x \<in> set xs. 0 \<le> x \<and> x \<le> 255 \<Longrightarrow> 0 < (c::int) \<Longrightarrow>
     \<forall>y \<in> set (map (\<lambda>x. x mod c) xs). 0 \<le> y \<and> y \<le> 255"
proof
  fix y assume a: "\<forall>x \<in> set xs. 0 \<le> x \<and> x \<le> 255" "0 < c" "y \<in> set (map (\<lambda>x. x mod c) xs)"
  then obtain x where x: "x \<in> set xs" "y = x mod c" by auto
  with a have "0 \<le> x" "x \<le> 255" by auto
  moreover have "x mod c \<le> x" using \<open>0 \<le> x\<close> by (rule zmod_le_nonneg_dividend)
  moreover have "0 \<le> x mod c" using a(2) by simp
  ultimately show "0 \<le> y \<and> y \<le> 255" using x(2) by simp
qed

lemma returns_mod_sweepI:
  assumes "sized s" "f s = Inr (fold (sweep_step g ev) [0..N s - 1] s)"
    and "map (g (ceil s)) (input s) = map (\<lambda>x. x mod ceil s) (input s)"
  shows "returns_mod f s"
  unfolding returns_mod_def using assms by (simp add: sweep_all_output)

lemma passes_return_mod:
  assumes "sized s" "\<forall>x \<in> set (input s). 0 \<le> x \<and> x \<le> 255" "0 < ceil s"
  shows "returns_mod baseMod_pass s"
    and "returns_mod fastMod_pass s"
    and "returns_mod fastModHint_pass s"
    and "4 dvd N s \<Longrightarrow> returns_mod unrollMod_pass s"
    and "4 dvd N s \<Longrightarrow> returns_mod fastModHintUnroll_pass s"
proof -
  have sd: "safe_div s" using assms(3) by (rule pos_safe_div)
  note m = mod_val_in_range [OF assms(2,3)] and g = guard_val_in_range [OF assms(2,3)]
  show "returns_mod baseMod_pass s"
    using assms(1) baseMod_pass_sweep [OF assms(1) sd] m by (rule returns_mod_sweepI)
  show "returns_mod fastMod_pass s"
    using assms(1) fastMod_pass_sweep [OF assms(1) sd] g by (rule returns_mod_sweepI)
  show "returns_mod fastModHint_pass s"
    using assms(1) fastModHint_pass_sweep [OF assms(1) sd] g by (rule returns_mod_sweepI)
  show "returns_mod unrollMod_pass s" if "4 dvd N s"
    using assms(1) unrollMod_pass_sweep [OF assms(1) sd that] m by (rule returns_mod_sweepI)
  show "returns_mod fastModHintUnroll_pass s" if "4 dvd N s"
    using assms(1) fastModHintUnroll_pass_sweep [OF assms(1) sd that] g by (rule returns_mod_sweepI)
qed

text \<open>
  A pass with the contract's output returns that output again on every state in which
  it is applied to it.
\<close>

lemma idempotent_step:
  assumes "\<forall>x \<in> set (input s). 0 \<le> x \<and> x \<le> 255" "0 < ceil s"
    and again: "\<And>t. sized t \<Longrightarrow> \<forall>x \<in> set (input t). 0 \<le> x \<and> x \<le> 255 \<Longrightarrow> 0 < ceil t \<Longrightarrow>
                 N t = N s \<Longrightarrow> returns_mod f t"
    and out: "output s' = map (\<lambda>x. x mod ceil s) (input s)"
    and t: "reapplied s (output s') t"
  shows "\<exists>s''. f t = Inr s'' \<and> output s'' = output s'"
proof -
  from t have p: "N t = N s" "ceil t = ceil s" "input t = output s'" "sized t"
    by (simp_all add: reapplied_def)
  have rg: "\<forall>x \<in> set (input t). 0 \<le> x \<and> x \<le> 255"
    using mod_keeps_range [OF assms(1,2)] out p(3) by simp
  have c: "0 < ceil t" using assms(2) p(2) by simp
  have "returns_mod f t" using p(4) rg c p(1) by (rule again)
  then obtain s'' where r: "f t = Inr s''" "output s'' = map (\<lambda>x. x mod ceil t) (input t)"
    unfolding returns_mod_def by blast
  have "map (\<lambda>x. x mod ceil t) (input t) = output s'"
    using assms(2) p(2,3) out by simp
  with r show ?thesis by simp
qed

text \<open>
  Claim C5. For every input sequence with elements in \<open>[0, 255]\<close> and every positive
  ceiling, a pass applied to its own output returns that output unchanged, whatever the
  output vector of the second application holds before it. The three passes that are
  not unrolled always return an output to apply them to; an unrolled pass does when
  \<open>N\<close> is a multiple of 4.
\<close>

theorem kernel_idempotent:
  assumes "sized s" and "\<forall>x \<in> set (input s). 0 \<le> x \<and> x \<le> 255" and "0 < ceil s"
  shows "(\<exists>s'. baseMod_pass s = Inr s' \<and>
            (\<forall>t. reapplied s (output s') t \<longrightarrow>
               (\<exists>s''. baseMod_pass t = Inr s'' \<and> output s'' = output s')))
    \<and> (\<exists>s'. fastMod_pass s = Inr s' \<and>
            (\<forall>t. reapplied s (output s') t \<longrightarrow>
               (\<exists>s''. fastMod_pass t = Inr s'' \<and> output s'' = output s')))
    \<and> (\<exists>s'. fastModHint_pass s = Inr s' \<and>
            (\<forall>t. reapplied s (output s') t \<longrightarrow>
               (\<exists>s''. fastModHint_pass t = Inr s'' \<and> output s'' = output s')))
    \<and> (\<forall>s' t. unrollMod_pass s = Inr s' \<and> reapplied s (output s') t \<longrightarrow>
          (\<exists>s''. unrollMod_pass t = Inr s'' \<and> output s'' = output s'))
    \<and> (\<forall>s' t. fastModHintUnroll_pass s = Inr s' \<and> reapplied s (output s') t \<longrightarrow>
          (\<exists>s''. fastModHintUnroll_pass t = Inr s'' \<and> output s'' = output s'))
    \<and> (4 dvd N s \<longrightarrow> (\<exists>s'. unrollMod_pass s = Inr s') \<and> (\<exists>s'. fastModHintUnroll_pass s = Inr s'))"
proof -
  have sd: "safe_div s" using assms(3) by (rule pos_safe_div)
  note p = passes_return_mod [OF assms]
  have 1: "\<exists>s'. baseMod_pass s = Inr s' \<and>
            (\<forall>t. reapplied s (output s') t \<longrightarrow>
               (\<exists>s''. baseMod_pass t = Inr s'' \<and> output s'' = output s'))"
  proof -
    from p(1) obtain s' where fs: "baseMod_pass s = Inr s'"
      and out: "output s' = map (\<lambda>x. x mod ceil s) (input s)"
      unfolding returns_mod_def by blast
    have "\<exists>s''. baseMod_pass t = Inr s'' \<and> output s'' = output s'"
      if "reapplied s (output s') t" for t
      using assms(2,3) _ out that by (rule idempotent_step) (rule passes_return_mod(1))
    with fs show ?thesis by blast
  qed
  have 2: "\<exists>s'. fastMod_pass s = Inr s' \<and>
            (\<forall>t. reapplied s (output s') t \<longrightarrow>
               (\<exists>s''. fastMod_pass t = Inr s'' \<and> output s'' = output s'))"
  proof -
    from p(2) obtain s' where fs: "fastMod_pass s = Inr s'"
      and out: "output s' = map (\<lambda>x. x mod ceil s) (input s)"
      unfolding returns_mod_def by blast
    have "\<exists>s''. fastMod_pass t = Inr s'' \<and> output s'' = output s'"
      if "reapplied s (output s') t" for t
      using assms(2,3) _ out that by (rule idempotent_step) (rule passes_return_mod(2))
    with fs show ?thesis by blast
  qed
  have 3: "\<exists>s'. fastModHint_pass s = Inr s' \<and>
            (\<forall>t. reapplied s (output s') t \<longrightarrow>
               (\<exists>s''. fastModHint_pass t = Inr s'' \<and> output s'' = output s'))"
  proof -
    from p(3) obtain s' where fs: "fastModHint_pass s = Inr s'"
      and out: "output s' = map (\<lambda>x. x mod ceil s) (input s)"
      unfolding returns_mod_def by blast
    have "\<exists>s''. fastModHint_pass t = Inr s'' \<and> output s'' = output s'"
      if "reapplied s (output s') t" for t
      using assms(2,3) _ out that by (rule idempotent_step) (rule passes_return_mod(3))
    with fs show ?thesis by blast
  qed
  have 4: "\<exists>s''. unrollMod_pass t = Inr s'' \<and> output s'' = output s'"
    if fs: "unrollMod_pass s = Inr s'" and t: "reapplied s (output s') t" for s' t
  proof -
    have d: "4 dvd N s" using assms(1) sd fs by (rule unrollMod_returns_dvd)
    from p(4) [OF d] fs have out: "output s' = map (\<lambda>x. x mod ceil s) (input s)"
      by (auto simp: returns_mod_def)
    show ?thesis
      using assms(2,3) _ out t
    proof (rule idempotent_step)
      fix u assume "sized u" "\<forall>x \<in> set (input u). 0 \<le> x \<and> x \<le> 255" "0 < ceil u" "N u = N s"
      then show "returns_mod unrollMod_pass u" using d by (intro passes_return_mod(4)) simp_all
    qed
  qed
  have 5: "\<exists>s''. fastModHintUnroll_pass t = Inr s'' \<and> output s'' = output s'"
    if fs: "fastModHintUnroll_pass s = Inr s'" and t: "reapplied s (output s') t" for s' t
  proof -
    have d: "4 dvd N s" using assms(1) sd fs by (rule fastModHintUnroll_returns_dvd)
    from p(5) [OF d] fs have out: "output s' = map (\<lambda>x. x mod ceil s) (input s)"
      by (auto simp: returns_mod_def)
    show ?thesis
      using assms(2,3) _ out t
    proof (rule idempotent_step)
      fix u assume "sized u" "\<forall>x \<in> set (input u). 0 \<le> x \<and> x \<le> 255" "0 < ceil u" "N u = N s"
      then show "returns_mod fastModHintUnroll_pass u" using d by (intro passes_return_mod(5)) simp_all
    qed
  qed
  have 6: "(\<exists>s'. unrollMod_pass s = Inr s') \<and> (\<exists>s'. fastModHintUnroll_pass s = Inr s')" if "4 dvd N s"
    using p(4) [OF that] p(5) [OF that] unfolding returns_mod_def by blast
  from 1 2 3 4 5 6 show ?thesis by blast
qed

theorem kernel_idempotent_witness:
  "\<exists>s' s''. fastMod_pass
        \<lparr>N = 4, ceil = 32, input = [5, 40, 7, 200], output = [0, 0, 0, 0], trace = []\<rparr> = Inr s'
     \<and> output s' = [5, 8, 7, 8]
     \<and> fastMod_pass
        \<lparr>N = 4, ceil = 32, input = [5, 8, 7, 8], output = [99, - 1, 0, 300], trace = []\<rparr> = Inr s''
     \<and> output s'' = [5, 8, 7, 8]"
proof -
  let ?s = "\<lparr>N = 4, ceil = 32, input = [5, 40, 7, 200], output = [0, 0, 0, 0], trace = []\<rparr>"
  let ?t = "\<lparr>N = 4, ceil = 32, input = [5, 8, 7, 8], output = [99, - 1, 0, 300], trace = []\<rparr>"
  have h: "sized ?s" "\<forall>x \<in> set (input ?s). 0 \<le> x \<and> x \<le> 255" "0 < ceil ?s"
    by (simp_all add: sized_def)
  from kernel_idempotent [OF h] obtain s' where
    r: "fastMod_pass ?s = Inr s'"
    and a: "\<forall>t. reapplied ?s (output s') t \<longrightarrow>
               (\<exists>s''. fastMod_pass t = Inr s'' \<and> output s'' = output s')"
    by blast
  have "pass_output fastMod_pass ?s = Inr [5, 8, 7, 8]" by (simp add: eval_defs)
  with r have o: "output s' = [5, 8, 7, 8]" by (simp add: pass_output_def)
  have "reapplied ?s (output s') ?t" by (simp add: reapplied_def sized_def o)
  with a obtain s'' where "fastMod_pass ?t = Inr s''" "output s'' = output s'" by blast
  with r o show ?thesis by auto
qed

subsection \<open>Violated preconditions\<close>

lemma mod_stmt_zero:
  "sized s \<Longrightarrow> 0 < N s \<Longrightarrow> ceil s = 0 \<Longrightarrow> mod_stmt 0 s = Inl DivByZero"
  by (simp add: mod_stmt_def read_input_def c_rem_def sized_def)

lemma first_nonneg:
  "sized s \<Longrightarrow> 0 < N s \<Longrightarrow> \<forall>x \<in> set (input s). 0 \<le> x \<and> x \<le> 255 \<Longrightarrow> 0 \<le> input s ! 0"
proof -
  assume a: "sized s" "0 < N s" "\<forall>x \<in> set (input s). 0 \<le> x \<and> x \<le> 255"
  then have "0 < length (input s)" by (auto simp: sized_def)
  then have "input s ! 0 \<in> set (input s)" by (rule nth_mem)
  with a(3) show ?thesis by blast
qed

lemma fast_stmt_zero:
  "sized s \<Longrightarrow> 0 < N s \<Longrightarrow> \<forall>x \<in> set (input s). 0 \<le> x \<and> x \<le> 255 \<Longrightarrow> ceil s = 0 \<Longrightarrow>
     fast_stmt 0 s = Inl DivByZero"
  using first_nonneg [of s]
  by (simp add: fast_stmt_def read_input_def c_rem_def sized_def)

lemma hint_stmt_zero:
  "sized s \<Longrightarrow> 0 < N s \<Longrightarrow> \<forall>x \<in> set (input s). 0 \<le> x \<and> x \<le> 255 \<Longrightarrow> ceil s = 0 \<Longrightarrow>
     hint_stmt 0 s = Inl DivByZero"
  using first_nonneg [of s]
  by (simp add: hint_stmt_def builtin_expect_def read_input_def c_rem_def sized_def)

lemma zero_ceiling:
  assumes "sized s" "0 < N s" "\<forall>x \<in> set (input s). 0 \<le> x \<and> x \<le> 255" "ceil s = 0"
  shows "baseMod_pass s = Inl DivByZero"
    and "unrollMod_pass s = Inl DivByZero"
    and "fastMod_pass s = Inl DivByZero"
    and "fastModHint_pass s = Inl DivByZero"
    and "fastModHintUnroll_pass s = Inl DivByZero"
proof -
  note m = mod_stmt_zero [OF assms(1,2,4)] and f = fast_stmt_zero [OF assms]
    and h = hint_stmt_zero [OF assms]
  show "baseMod_pass s = Inl DivByZero"
    unfolding baseMod_pass_def using assms(2) m by (subst baseMod_loop.simps) simp
  show "unrollMod_pass s = Inl DivByZero"
    unfolding unrollMod_pass_def using assms(2) m
    by (subst unrollMod_loop.simps) (simp add: unrollMod_body_def seq_def)
  show "fastMod_pass s = Inl DivByZero"
    unfolding fastMod_pass_def using assms(2) f by (subst fastMod_loop.simps) simp
  show "fastModHint_pass s = Inl DivByZero"
    unfolding fastModHint_pass_def using assms(2) h by (subst fastModHint_loop.simps) simp
  show "fastModHintUnroll_pass s = Inl DivByZero"
    unfolding fastModHintUnroll_pass_def using assms(2) h
    by (subst fastModHintUnroll_loop.simps) (simp add: fastModHintUnroll_body_def seq_def)
qed

lemma in_range_safe_div:
  "\<forall>x \<in> set (input s). 0 \<le> x \<and> x \<le> 255 \<Longrightarrow> ceil s \<noteq> 0 \<Longrightarrow> safe_div s"
  by (simp add: safe_div_def)

lemma negative_ceiling:
  assumes "sized s" "\<forall>x \<in> set (input s). 0 \<le> x \<and> x \<le> 255" "ceil s < 0"
  shows "pass_output baseMod_pass s = Inr (map (\<lambda>x. x mod (- ceil s)) (input s))"
    and "pass_output fastMod_pass s = Inr (map (\<lambda>x. x mod (- ceil s)) (input s))"
    and "pass_output fastModHint_pass s = Inr (map (\<lambda>x. x mod (- ceil s)) (input s))"
    and "4 dvd N s \<Longrightarrow> pass_output unrollMod_pass s = Inr (map (\<lambda>x. x mod (- ceil s)) (input s))"
    and "4 dvd N s \<Longrightarrow> pass_output fastModHintUnroll_pass s = Inr (map (\<lambda>x. x mod (- ceil s)) (input s))"
proof -
  have sd: "safe_div s" using assms(2,3) by (intro in_range_safe_div) simp_all
  have m: "map (mod_val (ceil s)) (input s) = map (\<lambda>x. x mod (- ceil s)) (input s)"
    using assms(2,3) by (simp add: mod_val_neg_ceil)
  have g: "map (guard_val (ceil s)) (input s) = map (\<lambda>x. x mod (- ceil s)) (input s)"
    using assms(2,3) by (simp add: guard_val_neg_ceil)
  show "pass_output baseMod_pass s = Inr (map (\<lambda>x. x mod (- ceil s)) (input s))"
    by (simp add: pass_output_def baseMod_pass_sweep [OF assms(1) sd] sweep_all_output [OF assms(1)] m)
  show "pass_output fastMod_pass s = Inr (map (\<lambda>x. x mod (- ceil s)) (input s))"
    by (simp add: pass_output_def fastMod_pass_sweep [OF assms(1) sd] sweep_all_output [OF assms(1)] g)
  show "pass_output fastModHint_pass s = Inr (map (\<lambda>x. x mod (- ceil s)) (input s))"
    by (simp add: pass_output_def fastModHint_pass_sweep [OF assms(1) sd] sweep_all_output [OF assms(1)] g)
  show "pass_output unrollMod_pass s = Inr (map (\<lambda>x. x mod (- ceil s)) (input s))" if "4 dvd N s"
    by (simp add: pass_output_def unrollMod_pass_sweep [OF assms(1) sd that] sweep_all_output [OF assms(1)] m)
  show "pass_output fastModHintUnroll_pass s = Inr (map (\<lambda>x. x mod (- ceil s)) (input s))" if "4 dvd N s"
    by (simp add: pass_output_def fastModHintUnroll_pass_sweep [OF assms(1) sd that] sweep_all_output [OF assms(1)] g)
qed

text \<open>
  Claim C7, as amended. The kernels check neither precondition. For inputs in
  \<open>[0, 255]\<close>: with a negative ceiling \<open>C\<close> no pass fails, and each one returns
  \<open>output[i] = input[i] mod (-C)\<close> (the unrolled ones when \<open>N\<close> is a multiple of 4);
  with the ceiling 0 and \<open>N > 0\<close> every pass ends at its first statement in a division
  by zero; with a ceiling other than 0 and \<open>N\<close> not a multiple of 4 the unrolled passes
  end in an access outside the vectors. Both endings are undefined behaviour of the C++
  program, not an assertion or a rejection.
\<close>

theorem precondition_violations:
  assumes "sized s" and "\<forall>x \<in> set (input s). 0 \<le> x \<and> x \<le> 255"
  shows "(ceil s < 0 \<longrightarrow>
            pass_output baseMod_pass s = Inr (map (\<lambda>x. x mod (- ceil s)) (input s))
          \<and> pass_output fastMod_pass s = Inr (map (\<lambda>x. x mod (- ceil s)) (input s))
          \<and> pass_output fastModHint_pass s = Inr (map (\<lambda>x. x mod (- ceil s)) (input s))
          \<and> (4 dvd N s \<longrightarrow>
                pass_output unrollMod_pass s = Inr (map (\<lambda>x. x mod (- ceil s)) (input s))
              \<and> pass_output fastModHintUnroll_pass s = Inr (map (\<lambda>x. x mod (- ceil s)) (input s))))
    \<and> (ceil s = 0 \<and> 0 < N s \<longrightarrow>
            baseMod_pass s = Inl DivByZero \<and> unrollMod_pass s = Inl DivByZero
          \<and> fastMod_pass s = Inl DivByZero \<and> fastModHint_pass s = Inl DivByZero
          \<and> fastModHintUnroll_pass s = Inl DivByZero)
    \<and> (ceil s \<noteq> 0 \<and> \<not> 4 dvd N s \<longrightarrow>
            unrollMod_pass s = Inl OutOfBounds \<and> fastModHintUnroll_pass s = Inl OutOfBounds)"
proof -
  have a: "ceil s < 0 \<longrightarrow>
            pass_output baseMod_pass s = Inr (map (\<lambda>x. x mod (- ceil s)) (input s))
          \<and> pass_output fastMod_pass s = Inr (map (\<lambda>x. x mod (- ceil s)) (input s))
          \<and> pass_output fastModHint_pass s = Inr (map (\<lambda>x. x mod (- ceil s)) (input s))
          \<and> (4 dvd N s \<longrightarrow>
                pass_output unrollMod_pass s = Inr (map (\<lambda>x. x mod (- ceil s)) (input s))
              \<and> pass_output fastModHintUnroll_pass s = Inr (map (\<lambda>x. x mod (- ceil s)) (input s)))"
    using negative_ceiling [OF assms] by blast
  have b: "ceil s = 0 \<and> 0 < N s \<longrightarrow>
            baseMod_pass s = Inl DivByZero \<and> unrollMod_pass s = Inl DivByZero
          \<and> fastMod_pass s = Inl DivByZero \<and> fastModHint_pass s = Inl DivByZero
          \<and> fastModHintUnroll_pass s = Inl DivByZero"
    using zero_ceiling [OF assms(1) _ assms(2)] by blast
  have c: "ceil s \<noteq> 0 \<and> \<not> 4 dvd N s \<longrightarrow>
            unrollMod_pass s = Inl OutOfBounds \<and> fastModHintUnroll_pass s = Inl OutOfBounds"
    using unrollMod_pass_oob [OF assms(1)] fastModHintUnroll_pass_oob [OF assms(1)]
      in_range_safe_div [OF assms(2)] by blast
  from a b c show ?thesis by blast
qed

theorem precondition_violations_witness:
  "pass_output fastMod_pass \<lparr>N = 2, ceil = - 32, input = [40, 5], output = [0, 0], trace = []\<rparr>
     = Inr [8, 5]
   \<and> fastMod_pass \<lparr>N = 2, ceil = 0, input = [40, 5], output = [0, 0], trace = []\<rparr> = Inl DivByZero
   \<and> unrollMod_pass \<lparr>N = 2, ceil = 32, input = [40, 5], output = [0, 0], trace = []\<rparr> = Inl OutOfBounds"
proof -
  let ?a = "\<lparr>N = 2, ceil = - 32, input = [40, 5], output = [0, 0], trace = []\<rparr>"
  let ?b = "\<lparr>N = 2, ceil = 0, input = [40, 5], output = [0, 0], trace = []\<rparr>"
  let ?c = "\<lparr>N = 2, ceil = 32, input = [40, 5], output = [0, 0], trace = []\<rparr>"
  have ha: "sized ?a" "\<forall>x \<in> set (input ?a). 0 \<le> x \<and> x \<le> 255" by (simp_all add: sized_def)
  have hb: "sized ?b" "\<forall>x \<in> set (input ?b). 0 \<le> x \<and> x \<le> 255" by (simp_all add: sized_def)
  have hc: "sized ?c" "\<forall>x \<in> set (input ?c). 0 \<le> x \<and> x \<le> 255" by (simp_all add: sized_def)
  show ?thesis
    using precondition_violations [OF ha] precondition_violations [OF hb]
      precondition_violations [OF hc]
    by simp
qed

text \<open>
  Claim C7 as stated fails: with the ceiling \<open>-32\<close> the baseline pass does not fail and
  stores \<open>40 % -32 = 8\<close>.
\<close>

theorem negative_ceiling_counterexample:
  "baseMod_pass \<lparr>N = 1, ceil = - 32, input = [40], output = [0], trace = []\<rparr>
     = Inr \<lparr>N = 1, ceil = - 32, input = [40], output = [8], trace = [Read 0, Write 0]\<rparr>"
  by (simp add: eval_defs)

subsection \<open>Indices of the unrolled kernels\<close>

lemma sweep_accesses:
  assumes "sized s" "ev = mod_ev \<or> ev = guard_ev"
  shows "\<exists>t. trace (fold (sweep_step g ev) [0..N s - 1] s) = trace s @ t
           \<and> (\<forall>a \<in> set t. 0 \<le> index_of a \<and> index_of a < N s)
           \<and> (\<forall>j \<in> {0..<N s}. count_list t (Write j) = 1)"
proof -
  define t where "t = concat (map ev [0..N s - 1])"
  have 1: "trace (fold (sweep_step g ev) [0..N s - 1] s) = trace s @ t"
    unfolding t_def by (rule fold_sweep_trace)
  have 2: "0 \<le> index_of a \<and> index_of a < N s" if "a \<in> set t" for a
  proof -
    have "index_of a \<in> set [0..N s - 1]"
    proof (cases "ev = mod_ev")
      case True
      show ?thesis using that unfolding t_def True by (rule index_mod_ev)
    next
      case False
      with assms(2) have g: "ev = guard_ev" by simp
      show ?thesis using that unfolding t_def g by (rule index_guard_ev)
    qed
    then show ?thesis by simp
  qed
  have 3: "count_list t (Write j) = 1" if "j \<in> {0..<N s}" for j
  proof -
    have "count_list t (Write j) = count_list [0..N s - 1] j"
      unfolding t_def using assms(2) by (auto simp: count_write_mod_ev count_write_guard_ev)
    also have "\<dots> = 1" using that by (intro count_list_distinct) simp_all
    finally show ?thesis .
  qed
  from 1 2 3 show ?thesis by blast
qed

text \<open>
  Claim C8. For a positive ceiling and \<open>N\<close> a multiple of 4, each unrolled pass returns,
  every index it reads from \<open>input\<close> or writes to \<open>output\<close> lies in \<open>[0, N)\<close>, and
  every index in \<open>[0, N)\<close> is written exactly once; when \<open>N\<close> is not a multiple of 4
  each unrolled pass ends in an access outside the vectors.
\<close>

theorem unrolled_accesses:
  assumes "sized s" and "0 < ceil s"
  shows "(4 dvd N s \<longrightarrow>
            (\<exists>s' t. unrollMod_pass s = Inr s' \<and> trace s' = trace s @ t
                \<and> (\<forall>a \<in> set t. 0 \<le> index_of a \<and> index_of a < N s)
                \<and> (\<forall>j \<in> {0..<N s}. count_list t (Write j) = 1))
          \<and> (\<exists>s' t. fastModHintUnroll_pass s = Inr s' \<and> trace s' = trace s @ t
                \<and> (\<forall>a \<in> set t. 0 \<le> index_of a \<and> index_of a < N s)
                \<and> (\<forall>j \<in> {0..<N s}. count_list t (Write j) = 1)))
    \<and> (\<not> 4 dvd N s \<longrightarrow>
            unrollMod_pass s = Inl OutOfBounds \<and> fastModHintUnroll_pass s = Inl OutOfBounds)"
proof -
  have sd: "safe_div s" using assms(2) by (rule pos_safe_div)
  have a: "\<exists>s' t. unrollMod_pass s = Inr s' \<and> trace s' = trace s @ t
                \<and> (\<forall>a \<in> set t. 0 \<le> index_of a \<and> index_of a < N s)
                \<and> (\<forall>j \<in> {0..<N s}. count_list t (Write j) = 1)" if d: "4 dvd N s"
    using unrollMod_pass_sweep [OF assms(1) sd d] sweep_accesses [OF assms(1), of mod_ev mod_val]
    by auto
  have b: "\<exists>s' t. fastModHintUnroll_pass s = Inr s' \<and> trace s' = trace s @ t
                \<and> (\<forall>a \<in> set t. 0 \<le> index_of a \<and> index_of a < N s)
                \<and> (\<forall>j \<in> {0..<N s}. count_list t (Write j) = 1)" if d: "4 dvd N s"
    using fastModHintUnroll_pass_sweep [OF assms(1) sd d]
      sweep_accesses [OF assms(1), of guard_ev guard_val]
    by auto
  have c: "unrollMod_pass s = Inl OutOfBounds \<and> fastModHintUnroll_pass s = Inl OutOfBounds"
    if "\<not> 4 dvd N s"
    using unrollMod_pass_oob [OF assms(1) sd that] fastModHintUnroll_pass_oob [OF assms(1) sd that]
    by simp
  from a b c show ?thesis by blast
qed

theorem unrolled_accesses_witness:
  "unrollMod_pass \<lparr>N = 4, ceil = 32, input = [5, 40, 7, 200], output = [0, 0, 0, 0], trace = []\<rparr>
     = Inr \<lparr>N = 4, ceil = 32, input = [5, 40, 7, 200], output = [5, 8, 7, 8],
            trace = [Read 0, Write 0, Read 1, Write 1, Read 2, Write 2, Read 3, Write 3]\<rparr>
   \<and> count_list [Read 0, Write 0, Read 1, Write 1, Read 2, Write 2, Read 3, Write 3] (Write 2) = 1
   \<and> unrollMod_pass \<lparr>N = 3, ceil = 32, input = [5, 40, 7], output = [0, 0, 0], trace = []\<rparr>
     = Inl OutOfBounds"
proof -
  let ?s = "\<lparr>N = 4, ceil = 32, input = [5, 40, 7, 200], output = [0, 0, 0, 0], trace = []\<rparr>"
  let ?u = "\<lparr>N = 3, ceil = 32, input = [5, 40, 7], output = [0, 0, 0], trace = []\<rparr>"
  have h: "sized ?s" "0 < ceil ?s" and k: "sized ?u" "0 < ceil ?u" by (simp_all add: sized_def)
  have r: "unrollMod_pass ?s
     = Inr \<lparr>N = 4, ceil = 32, input = [5, 40, 7, 200], output = [5, 8, 7, 8],
            trace = [Read 0, Write 0, Read 1, Write 1, Read 2, Write 2, Read 3, Write 3]\<rparr>"
    by (simp add: eval_defs)
  have "4 dvd N ?s" by simp
  with unrolled_accesses [OF h] obtain s' t where
    "unrollMod_pass ?s = Inr s'" "trace s' = trace ?s @ t"
    "\<forall>j \<in> {0..<N ?s}. count_list t (Write j) = 1"
    by blast
  with r have 1:
    "count_list [Read 0, Write 0, Read 1, Write 1, Read 2, Write 2, Read 3, Write 3] (Write 2) = 1"
    by auto
  have "\<not> 4 dvd N ?u" by simp
  with unrolled_accesses [OF k] have 2: "unrollMod_pass ?u = Inl OutOfBounds" by blast
  from r 1 2 show ?thesis by blast
qed

subsection \<open>The frame of a pass\<close>

lemma baseMod_loop_frame:
  "baseMod_loop i s = Inr s' \<Longrightarrow> N s' = N s \<and> ceil s' = ceil s \<and> input s' = input s"
proof (induction i s rule: baseMod_loop.induct)
  case (1 i s)
  show ?case
  proof (cases "i < N s")
    case True
    with "1.prems" obtain s1 where st: "mod_stmt i s = Inr s1"
      and r: "baseMod_loop (i + 1) s1 = Inr s'"
      by (subst (asm) baseMod_loop.simps) (auto split: sum.splits)
    from "1.IH" [OF True st r] mod_stmt_frame [OF st] show ?thesis by simp
  next
    case False
    with "1.prems" show ?thesis by (subst (asm) baseMod_loop.simps) simp
  qed
qed

lemma fastMod_loop_frame:
  "fastMod_loop i s = Inr s' \<Longrightarrow> N s' = N s \<and> ceil s' = ceil s \<and> input s' = input s"
proof (induction i s rule: fastMod_loop.induct)
  case (1 i s)
  show ?case
  proof (cases "i < N s")
    case True
    with "1.prems" obtain s1 where st: "fast_stmt i s = Inr s1"
      and r: "fastMod_loop (i + 1) s1 = Inr s'"
      by (subst (asm) fastMod_loop.simps) (auto split: sum.splits)
    from "1.IH" [OF True st r] fast_stmt_frame [OF st] show ?thesis by simp
  next
    case False
    with "1.prems" show ?thesis by (subst (asm) fastMod_loop.simps) simp
  qed
qed

lemma fastModHint_loop_frame:
  "fastModHint_loop i s = Inr s' \<Longrightarrow> N s' = N s \<and> ceil s' = ceil s \<and> input s' = input s"
proof (induction i s rule: fastModHint_loop.induct)
  case (1 i s)
  show ?case
  proof (cases "i < N s")
    case True
    with "1.prems" obtain s1 where st: "hint_stmt i s = Inr s1"
      and r: "fastModHint_loop (i + 1) s1 = Inr s'"
      by (subst (asm) fastModHint_loop.simps) (auto split: sum.splits)
    from "1.IH" [OF True st r] hint_stmt_frame [OF st] show ?thesis by simp
  next
    case False
    with "1.prems" show ?thesis by (subst (asm) fastModHint_loop.simps) simp
  qed
qed

lemma unrollMod_loop_frame:
  "unrollMod_loop i s = Inr s' \<Longrightarrow> N s' = N s \<and> ceil s' = ceil s \<and> input s' = input s"
proof (induction i s rule: unrollMod_loop.induct)
  case (1 i s)
  show ?case
  proof (cases "i < N s")
    case True
    with "1.prems" obtain s1 where st: "unrollMod_body i s = Inr s1"
      and r: "unrollMod_loop (i + 4) s1 = Inr s'"
      by (subst (asm) unrollMod_loop.simps) (auto split: sum.splits)
    from "1.IH" [OF True st r] unrollMod_body_frame [OF st] show ?thesis by simp
  next
    case False
    with "1.prems" show ?thesis by (subst (asm) unrollMod_loop.simps) simp
  qed
qed

lemma fastModHintUnroll_loop_frame:
  "fastModHintUnroll_loop i s = Inr s' \<Longrightarrow> N s' = N s \<and> ceil s' = ceil s \<and> input s' = input s"
proof (induction i s rule: fastModHintUnroll_loop.induct)
  case (1 i s)
  show ?case
  proof (cases "i < N s")
    case True
    with "1.prems" obtain s1 where st: "fastModHintUnroll_body i s = Inr s1"
      and r: "fastModHintUnroll_loop (i + 4) s1 = Inr s'"
      by (subst (asm) fastModHintUnroll_loop.simps) (auto split: sum.splits)
    from "1.IH" [OF True st r] fastModHintUnroll_body_frame [OF st] show ?thesis by simp
  next
    case False
    with "1.prems" show ?thesis by (subst (asm) fastModHintUnroll_loop.simps) simp
  qed
qed

lemma pos_sized_returns:
  assumes "sized s" "0 < ceil s"
  shows "\<exists>s'. baseMod_pass s = Inr s'" "\<exists>s'. fastMod_pass s = Inr s'"
    "\<exists>s'. fastModHint_pass s = Inr s'"
    "4 dvd N s \<Longrightarrow> \<exists>s'. unrollMod_pass s = Inr s'"
    "4 dvd N s \<Longrightarrow> \<exists>s'. fastModHintUnroll_pass s = Inr s'"
  using assms
  by (simp_all add: pos_safe_div baseMod_pass_sweep fastMod_pass_sweep fastModHint_pass_sweep
      unrollMod_pass_sweep fastModHintUnroll_pass_sweep)

text \<open>
  Claim C10. Whatever the input sequence and the ceiling, a pass that returns leaves
  \<open>input\<close>, \<open>ceil\<close> and \<open>N\<close> as they were: it writes \<open>output\<close> only. (With vectors of
  \<open>N\<close> elements and a positive ceiling the passes that are not unrolled do return, and
  so do the unrolled ones when \<open>N\<close> is a multiple of 4.)
\<close>

theorem kernel_frame:
  "(baseMod_pass s = Inr s' \<longrightarrow> input s' = input s \<and> ceil s' = ceil s \<and> N s' = N s)
   \<and> (unrollMod_pass s = Inr s' \<longrightarrow> input s' = input s \<and> ceil s' = ceil s \<and> N s' = N s)
   \<and> (fastMod_pass s = Inr s' \<longrightarrow> input s' = input s \<and> ceil s' = ceil s \<and> N s' = N s)
   \<and> (fastModHint_pass s = Inr s' \<longrightarrow> input s' = input s \<and> ceil s' = ceil s \<and> N s' = N s)
   \<and> (fastModHintUnroll_pass s = Inr s' \<longrightarrow> input s' = input s \<and> ceil s' = ceil s \<and> N s' = N s)
   \<and> (sized s \<and> 0 < ceil s \<longrightarrow>
         (\<exists>t. baseMod_pass s = Inr t) \<and> (\<exists>t. fastMod_pass s = Inr t)
       \<and> (\<exists>t. fastModHint_pass s = Inr t)
       \<and> (4 dvd N s \<longrightarrow> (\<exists>t. unrollMod_pass s = Inr t) \<and> (\<exists>t. fastModHintUnroll_pass s = Inr t)))"
  unfolding baseMod_pass_def unrollMod_pass_def fastMod_pass_def fastModHint_pass_def
    fastModHintUnroll_pass_def
  using pos_sized_returns [of s]
  by (auto dest: baseMod_loop_frame unrollMod_loop_frame fastMod_loop_frame
      fastModHint_loop_frame fastModHintUnroll_loop_frame
      simp: baseMod_pass_def unrollMod_pass_def fastMod_pass_def fastModHint_pass_def
    fastModHintUnroll_pass_def)

theorem kernel_frame_witness:
  "\<exists>s'. fastMod_pass \<lparr>N = 2, ceil = 128, input = [200, 3], output = [0, 0], trace = []\<rparr> = Inr s'
      \<and> input s' = [200, 3] \<and> ceil s' = 128 \<and> output s' = [72, 3]"
proof -
  let ?s = "\<lparr>N = 2, ceil = 128, input = [200, 3], output = [0, 0], trace = []\<rparr>"
  have "sized ?s \<and> 0 < ceil ?s" by (simp add: sized_def)
  with kernel_frame [of ?s] obtain t where t: "fastMod_pass ?s = Inr t" by blast
  with kernel_frame [of ?s t] have "input t = [200, 3]" "ceil t = 128" by simp_all
  moreover have "pass_output fastMod_pass ?s = Inr [72, 3]" by (simp add: eval_defs)
  with t have "output t = [72, 3]" by (simp add: pass_output_def)
  ultimately show ?thesis using t by blast
qed

subsection \<open>The grid of the argument generator\<close>

lemma custom_args_append:
  "custom_args b = Some (b @
     [(16, 32), (16, 128), (16, 224), (64, 32), (64, 128), (64, 224),
      (256, 32), (256, 128), (256, 224), (1024, 32), (1024, 128), (1024, 224)])"
  by (simp add: custom_args_def custom_args_loop.simps ArgPair_def)

text \<open>
  Claim C9. The argument generator returns, and adds exactly the twelve pairs
  \<open>(N, C)\<close> with \<open>N\<close> in \<open>{16, 64, 256, 1024}\<close> and \<open>C\<close> in \<open>{32, 128, 224}\<close>; each of the
  five variants is registered with the result of the generator on an empty benchmark, so
  the invocations are the sixty combinations of a variant with a pair of the grid.
\<close>

theorem custom_args_grid:
  "custom_args [] = Some
     [(16, 32), (16, 128), (16, 224), (64, 32), (64, 128), (64, 224),
      (256, 32), (256, 128), (256, 224), (1024, 32), (1024, 128), (1024, 224)]
   \<and> (\<exists>ps. custom_args [] = Some ps \<and> length ps = 12 \<and> distinct ps
          \<and> set ps = {16, 64, 256, 1024} \<times> {32, 128, 224})
   \<and> map fst registered = [BaseMod, UnrollMod, FastMod, FastModHint, FastModHintUnroll]
   \<and> map snd registered = replicate 5 (custom_args [])
   \<and> length invocations = 60
   \<and> set invocations
        = {BaseMod, UnrollMod, FastMod, FastModHint, FastModHintUnroll}
            \<times> ({16, 64, 256, 1024} \<times> {32, 128, 224})"
proof -
  have 1: "custom_args [] = Some
     [(16, 32), (16, 128), (16, 224), (64, 32), (64, 128), (64, 224),
      (256, 32), (256, 128), (256, 224), (1024, 32), (1024, 128), (1024, 224)]"
    using custom_args_append [of "[]"] by simp
  have 2: "set [(16, 32), (16, 128), (16, 224), (64, 32), (64, 128), (64, 224),
      (256, 32), (256, 128), (256, 224), (1024, 32), (1024, 128), (1024, 224)]
     = {16, 64, 256, (1024::int)} \<times> {32, 128, (224::int)}"
    by auto
  have 3: "map fst registered = [BaseMod, UnrollMod, FastMod, FastModHint, FastModHintUnroll]"
    "map snd registered = replicate 5 (custom_args [])"
    by (simp_all add: registered_def Apply_def numeral_eq_Suc)
  have 4: "length invocations = 60"
    by (simp add: invocations_def registered_def Apply_def 1)
  have 5: "set invocations
        = {BaseMod, UnrollMod, FastMod, FastModHint, FastModHintUnroll}
            \<times> ({16, 64, 256, 1024} \<times> {32, 128, 224})"
    by (simp add: invocations_def registered_def Apply_def 1)
  from 1 2 3 4 5 show ?thesis by simp
qed

end
